theory Spec2Isabelle
  imports Main "HOL-Library.Word" "HOL-Library.Multiset"
begin

section \<open>Machine integers and the data model of \<open>multi_grid.hpp\<close>\<close>

text \<open>
  \<open>size_t\<close> is the 64-bit unsigned integer of the LP64 and LLP64 targets, \<open>int\<close> the
  32-bit signed one. Arithmetic on both wraps around; a conversion between them is
  \<open>ucast\<close> (truncation, or zero extension) or \<open>scast\<close> (sign extension).
\<close>

type_synonym size_t = "64 word"
type_synonym c_int = "32 word"

text \<open>
  \<open>GridSize\<close> and \<open>CellId\<close> are \<open>std::array<size_t, dim>\<close>: lists of length \<open>dim\<close>.
  The template parameter \<open>dim\<close> is the length of the stored grid size.
\<close>

type_synonym GridSize = "size_t list"
type_synonym CellId = "size_t list"

text \<open>
  \<open>DataBounds\<close> holds two iterators into \<open>compressed_data_.data\<close>; an iterator is modelled
  by its offset from \<open>data.begin()\<close>.
\<close>

record DataBounds =
  begin_it :: nat
  end_it :: nat

text \<open>
  The exceptions of the class, under the names the specification gives them:
  \<open>InvalidShape\<close> is the \<open>std::runtime_error\<close> of the constructor, \<open>OutOfRange\<close> the
  \<open>std::out_of_range\<close> of \<open>add\<close> and \<open>enumerateData\<close>, \<open>NotCompressed\<close> the
  \<open>std::runtime_error\<close> of \<open>enumerateData\<close>. \<open>OutOfBounds\<close> is no exception: it marks an
  unchecked \<open>operator[]\<close> or iterator offset outside its vector, which is undefined
  behaviour in C++ and is made an explicit outcome here.
\<close>

datatype error = InvalidShape | OutOfRange | NotCompressed | OutOfBounds

text \<open>
  The class \<open>MultiGrid<dim, Data>\<close>, with the members of its two nested structs laid out
  flat: \<open>raw_data\<close> and \<open>raw_cell_ids\<close> are \<open>raw_data_.data\<close> and \<open>raw_data_.cell_ids\<close>,
  the last four fields are those of \<open>compressed_data_\<close>; the members \<open>grid_size_\<close>,
  \<open>num_cells_\<close> and \<open>compressed_\<close> are the fields \<open>grid_size_m\<close>, \<open>num_cells_m\<close> and
  \<open>compressed_m\<close>. A \<open>std::vector\<close> is a list;
  its capacity (\<open>reserve\<close>) is not observable, and allocation failure is not modelled:
  neither \<open>std::bad_alloc\<close> nor the \<open>std::length_error\<close> of a \<open>reserve\<close> or \<open>resize\<close>
  beyond \<open>max_size()\<close>. An operation of the model returns wherever the real one does.
\<close>

record 'a MultiGrid =
  grid_size_m :: GridSize
  num_cells_m :: size_t
  compressed_m :: bool
  raw_data :: "'a list"
  raw_cell_ids :: "CellId list"
  data :: "'a list"
  num_data_per_cell :: "size_t list"
  first_data_id_per_cell :: "size_t list"
  next_data_id_per_cell_buff :: "size_t list"

section \<open>The operations\<close>

text \<open>
  \<open>std::accumulate(first, last, 1, std::multiplies<size_t>())\<close>: the accumulator has the
  type of the initial value \<open>1\<close>, which is \<open>int\<close>. Each step converts the accumulator to
  \<open>size_t\<close> (sign extension), multiplies in \<open>size_t\<close>, and converts the product back to
  \<open>int\<close> (truncation to 32 bits: the conversion that C++20 prescribes and that the
  compilers before it implement).
\<close>

definition accumulate_int :: "size_t list \<Rightarrow> c_int" where
  "accumulate_int xs = fold (\<lambda>x init. ucast ((scast init :: size_t) * x)) xs 1"

text \<open>
  The constructor. \<open>num_cells_\<close> is initialised from the \<open>int\<close> result of
  \<open>std::accumulate\<close> (sign extension to \<open>size_t\<close>); the loop then rejects a zero
  component; the three per-cell vectors are resized to \<open>num_cells_\<close> zeros. The static
  assertion \<open>dim > 0\<close> plays no role below.
\<close>

definition MultiGrid :: "GridSize \<Rightarrow> size_t \<Rightarrow> error + 'a MultiGrid" where
  "MultiGrid grid_size buff_size =
    (let num_cells = (scast (accumulate_int grid_size) :: size_t) in
     if list_ex (\<lambda>i. grid_size ! i = 0) [0..<length grid_size] then Inl InvalidShape
     else Inr \<lparr>grid_size_m = grid_size, num_cells_m = num_cells, compressed_m = False,
               raw_data = [], raw_cell_ids = [], data = [],
               num_data_per_cell = replicate (unat num_cells) 0,
               first_data_id_per_cell = replicate (unat num_cells) 0,
               next_data_id_per_cell_buff = replicate (unat num_cells) 0\<rparr>)"

text \<open>
  The validation loop that \<open>add\<close> and \<open>enumerateData\<close> both start with:
  some \<open>i < dim\<close> has \<open>cell_id[i] >= grid_size_[i]\<close>.
\<close>

definition cell_id_invalid :: "GridSize \<Rightarrow> CellId \<Rightarrow> bool" where
  "cell_id_invalid grid_size cell_id =
     list_ex (\<lambda>i. grid_size ! i \<le> cell_id ! i) [0..<length grid_size]"

text \<open>
  \<open>add\<close> returns the exception, if any, together with the state the object is left in.
\<close>

definition add :: "CellId \<Rightarrow> 'a \<Rightarrow> 'a MultiGrid \<Rightarrow> error option \<times> 'a MultiGrid" where
  "add cell_id x s =
    (if cell_id_invalid (grid_size_m s) cell_id then (Some OutOfRange, s)
     else
       let s1 = (if compressed_m s then s\<lparr>compressed_m := False\<rparr> else s) in
       (None, s1\<lparr>raw_data := raw_data s1 @ [x], raw_cell_ids := raw_cell_ids s1 @ [cell_id]\<rparr>))"

definition clear :: "'a MultiGrid \<Rightarrow> 'a MultiGrid" where
  "clear s =
    (let s1 = (if compressed_m s then s\<lparr>compressed_m := False\<rparr> else s) in
     s1\<lparr>raw_data := [], raw_cell_ids := []\<rparr>)"

text \<open>
  \<open>linearize\<close>: the loop over \<open>i < dim\<close> with the two accumulators \<open>storage_id\<close> and
  \<open>mult\<close>, in \<open>size_t\<close> arithmetic.
\<close>

definition linearize :: "GridSize \<Rightarrow> CellId \<Rightarrow> size_t" where
  "linearize grid_size cell_id =
     fst (fold (\<lambda>i (storage_id, mult). (storage_id + cell_id ! i * mult, mult * grid_size ! i))
            [0..<length grid_size] (0, 1))"

text \<open>
  The three loops of \<open>compress\<close>. Every \<open>operator[]\<close> is guarded by the bounds check
  that C++ leaves out, with \<open>OutOfBounds\<close> where it fails.
\<close>

fun count_pass :: "GridSize \<Rightarrow> CellId list \<Rightarrow> size_t list \<Rightarrow> error + size_t list" where
  "count_pass grid_size [] num = Inr num"
| "count_pass grid_size (cell_id # rest) num =
    (let storage_id = unat (linearize grid_size cell_id) in
     if storage_id < length num
     then count_pass grid_size rest (num[storage_id := num ! storage_id + 1])
     else Inl OutOfBounds)"

function prefix_pass ::
  "nat \<Rightarrow> nat \<Rightarrow> size_t list \<Rightarrow> size_t list \<Rightarrow> size_t \<Rightarrow> error + size_t list" where
  "prefix_pass i n num first first_data_id_buff =
    (if i < n then
       if i < length first \<and> i < length num
       then prefix_pass (Suc i) n num (first[i := first_data_id_buff])
              (first_data_id_buff + num ! i)
       else Inl OutOfBounds
     else Inr first)"
  by pat_completeness auto
termination
  by (relation "measure (\<lambda>(i, n, num, first, b). n - i)") auto

function scatter_pass ::
  "GridSize \<Rightarrow> nat \<Rightarrow> nat \<Rightarrow> 'a list \<Rightarrow> CellId list \<Rightarrow> size_t list \<Rightarrow> 'a list
    \<Rightarrow> error + (size_t list \<times> 'a list)" where
  "scatter_pass grid_size i num_raw_data rdata rcell_ids next dat =
    (if i < num_raw_data then
       if i < length rcell_ids \<and> i < length rdata then
         let storage_id = unat (linearize grid_size (rcell_ids ! i)) in
         if storage_id < length next then
           let next_data_id = unat (next ! storage_id);
               next' = next[storage_id := next ! storage_id + 1]
           in if next_data_id < length dat
              then scatter_pass grid_size (Suc i) num_raw_data rdata rcell_ids next'
                     (dat[next_data_id := rdata ! i])
              else Inl OutOfBounds
         else Inl OutOfBounds
       else Inl OutOfBounds
     else Inr (next, dat))"
  by pat_completeness auto
termination
  by (relation "measure (\<lambda>(g, i, n, rest). n - i)") auto

declare prefix_pass.simps [simp del] scatter_pass.simps [simp del]

text \<open>
  \<open>std::vector::resize(n)\<close>: truncation, or padding with value-initialised elements
  (\<open>Data()\<close>, the parameter \<open>dflt\<close>).
\<close>

definition resize :: "'a \<Rightarrow> nat \<Rightarrow> 'a list \<Rightarrow> 'a list" where
  "resize dflt n xs = take n xs @ replicate (n - length xs) dflt"

definition compress :: "'a \<Rightarrow> 'a MultiGrid \<Rightarrow> error + 'a MultiGrid" where
  "compress dflt s =
    (if compressed_m s then Inr s
     else
       case count_pass (grid_size_m s) (raw_cell_ids s)
              (replicate (length (num_data_per_cell s)) 0) of
         Inl e \<Rightarrow> Inl e
       | Inr num \<Rightarrow>
          (case prefix_pass 0 (unat (num_cells_m s)) num
                  (replicate (length (first_data_id_per_cell s)) 0) 0 of
             Inl e \<Rightarrow> Inl e
           | Inr first \<Rightarrow>
              (case scatter_pass (grid_size_m s) 0 (length (raw_data s)) (raw_data s)
                      (raw_cell_ids s) first
                      (resize dflt (length (raw_data s)) (data s)) of
                 Inl e \<Rightarrow> Inl e
               | Inr (next, dat) \<Rightarrow>
                   Inr (s\<lparr>data := dat, num_data_per_cell := num,
                          first_data_id_per_cell := first,
                          next_data_id_per_cell_buff := next,
                          compressed_m := True\<rparr>))))"

text \<open>
  \<open>enumerateData\<close>: the flag is tested first, then the cell id. Besides the two
  unchecked \<open>operator[]\<close>, moving an iterator beyond \<open>data.end()\<close> is undefined
  behaviour, hence the last test.
\<close>

definition enumerateData :: "'a MultiGrid \<Rightarrow> CellId \<Rightarrow> error + DataBounds" where
  "enumerateData s cell_id =
    (if \<not> compressed_m s then Inl NotCompressed
     else if cell_id_invalid (grid_size_m s) cell_id then Inl OutOfRange
     else
       let storage_id = unat (linearize (grid_size_m s) cell_id) in
       if storage_id < length (first_data_id_per_cell s)
          \<and> storage_id < length (num_data_per_cell s)
       then
         let b = unat (first_data_id_per_cell s ! storage_id);
             e = b + unat (num_data_per_cell s ! storage_id)
         in if e \<le> length (data s) then Inr \<lparr>begin_it = b, end_it = e\<rparr>
            else Inl OutOfBounds
       else Inl OutOfBounds)"

text \<open>The items between the two iterators of a \<open>DataBounds\<close>.\<close>

definition view :: "'a MultiGrid \<Rightarrow> DataBounds \<Rightarrow> 'a list" where
  "view s b = take (end_it b - begin_it b) (drop (begin_it b) (data s))"

section \<open>Sequences of calls\<close>

text \<open>
  A caller's sequence of calls on one object. An \<open>add\<close> that throws leaves the object as it
  was and the caller carries on; a \<open>compress\<close> that leaves the defined behaviour of C++
  ends the run with \<open>OutOfBounds\<close>.
\<close>

datatype 'a operation = Add CellId 'a | Clear | Compress

fun step :: "'a \<Rightarrow> 'a MultiGrid \<Rightarrow> 'a operation \<Rightarrow> error + 'a MultiGrid" where
  "step dflt s (Add cell_id x) = Inr (snd (add cell_id x s))"
| "step dflt s Clear = Inr (clear s)"
| "step dflt s Compress = compress dflt s"

fun run :: "'a \<Rightarrow> 'a MultiGrid \<Rightarrow> 'a operation list \<Rightarrow> error + 'a MultiGrid" where
  "run dflt s [] = Inr s"
| "run dflt s (call # calls) =
     (case step dflt s call of Inl e \<Rightarrow> Inl e | Inr s' \<Rightarrow> run dflt s' calls)"

text \<open>
  The calls that change the raw buffer: every \<open>clear\<close>, and every \<open>add\<close> that does not
  throw.
\<close>

fun mutating :: "GridSize \<Rightarrow> 'a operation \<Rightarrow> bool" where
  "mutating gs (Add cell_id x) = (\<not> cell_id_invalid gs cell_id)"
| "mutating gs Clear = True"
| "mutating gs Compress = False"

section \<open>The notions of the specification\<close>

text \<open>
  The linearization formula of the specification, on natural numbers: the cell id
  \<open>(c\<^sub>0, \<dots>, c\<^sub>D\<^sub>-\<^sub>1)\<close> maps to the sum of the \<open>c\<^sub>i\<close> times the product of the \<open>n\<^sub>j\<close>
  with \<open>j < i\<close>.
\<close>

definition linearize_spec :: "nat list \<Rightarrow> nat list \<Rightarrow> nat" where
  "linearize_spec ns cs = (\<Sum>i<length ns. cs ! i * (\<Prod>j<i. ns ! j))"

text \<open>
  What the specification says \<open>compress\<close> computes for the storage id \<open>k\<close> from the raw
  buffer: \<open>count[k]\<close>, the number of raw entries whose cell id linearizes to \<open>k\<close>;
  \<open>start[k]\<close>, the sum of the counts below \<open>k\<close>; and the items of those entries, in the
  order of the raw buffer.
\<close>

definition spec_count :: "GridSize \<Rightarrow> CellId list \<Rightarrow> nat \<Rightarrow> nat" where
  "spec_count gs cells k = length (filter (\<lambda>c. unat (linearize gs c) = k) cells)"

definition spec_start :: "GridSize \<Rightarrow> CellId list \<Rightarrow> nat \<Rightarrow> nat" where
  "spec_start gs cells k = sum_list (map (spec_count gs cells) [0..<k])"

definition spec_items :: "GridSize \<Rightarrow> CellId list \<Rightarrow> 'a list \<Rightarrow> nat \<Rightarrow> 'a list" where
  "spec_items gs cells xs k =
     map snd (filter (\<lambda>p. unat (linearize gs (fst p)) = k) (zip cells xs))"

section \<open>Invariants\<close>

text \<open>
  The compressed buffer mirrors the raw buffer: counts, start offsets and the segment of
  every storage id are those of the specification.
\<close>

definition compressed_ok :: "'a MultiGrid \<Rightarrow> bool" where
  "compressed_ok s \<longleftrightarrow>
     length (data s) = length (raw_data s)
     \<and> num_data_per_cell s
         = map (\<lambda>k. of_nat (spec_count (grid_size_m s) (raw_cell_ids s) k))
             [0..<unat (num_cells_m s)]
     \<and> first_data_id_per_cell s
         = map (\<lambda>k. of_nat (spec_start (grid_size_m s) (raw_cell_ids s) k))
             [0..<unat (num_cells_m s)]
     \<and> list_all (\<lambda>k. take (spec_count (grid_size_m s) (raw_cell_ids s) k)
                         (drop (spec_start (grid_size_m s) (raw_cell_ids s) k) (data s))
                       = spec_items (grid_size_m s) (raw_cell_ids s) (raw_data s) k)
         [0..<unat (num_cells_m s)]"

text \<open>
  The invariant of an object whose stored cell count is the product of its grid size:
  the raw sequences have one length, which fits \<open>size_t\<close> as every \<open>std::vector\<close> size
  does; every buffered cell id has the grid's dimension and is in range; the per-cell
  arrays have \<open>num_cells_\<close> entries; and a set compressed flag means that the compressed
  buffer mirrors the raw one.
\<close>

definition state_ok :: "'a MultiGrid \<Rightarrow> bool" where
  "state_ok s \<longleftrightarrow>
     length (raw_cell_ids s) = length (raw_data s)
     \<and> length (raw_data s) < 2 ^ 64
     \<and> list_all (\<lambda>c. length c = length (grid_size_m s) \<and> \<not> cell_id_invalid (grid_size_m s) c)
          (raw_cell_ids s)
     \<and> unat (num_cells_m s) = prod_list (map unat (grid_size_m s))
     \<and> length (num_data_per_cell s) = unat (num_cells_m s)
     \<and> length (first_data_id_per_cell s) = unat (num_cells_m s)
     \<and> (compressed_m s \<longrightarrow> compressed_ok s)"

section \<open>Basic facts\<close>

lemma cell_id_invalid_iff:
  "cell_id_invalid gs c \<longleftrightarrow> (\<exists>i<length gs. gs ! i \<le> c ! i)"
  by (auto simp: cell_id_invalid_def list_ex_iff)

lemma compress_Inr_compressed: "compress dflt s = Inr s' \<Longrightarrow> compressed_m s'"
  by (auto simp: compress_def split: if_splits sum.splits prod.splits)

lemma unat_of_nat_small: "n < 2 ^ 64 \<Longrightarrow> unat (of_nat n :: size_t) = n"
  by (simp add: unat_of_nat)

lemma MultiGrid_fields:
  assumes "MultiGrid grid_size buff_size = Inr s"
  shows "grid_size_m s = grid_size" "raw_data s = []" "raw_cell_ids s = []" "\<not> compressed_m s"
  using assms by (auto simp: MultiGrid_def Let_def split: if_splits)

lemma resize_length [simp]: "length (resize dflt n xs) = n"
  by (simp add: resize_def)

lemma run_append:
  "run dflt s (calls @ calls')
     = (case run dflt s calls of Inl e \<Rightarrow> Inl e | Inr s' \<Rightarrow> run dflt s' calls')"
  by (induction calls arbitrary: s) (simp_all split: sum.splits)

lemma step_grid_size: "step dflt s call = Inr s' \<Longrightarrow> grid_size_m s' = grid_size_m s"
  by (cases call)
     (auto simp: add_def clear_def compress_def Let_def split: if_splits sum.splits prod.splits)

lemma step_flag:
  assumes "step dflt s call = Inr s'"
  shows "compressed_m s' \<longleftrightarrow>
     (case call of Compress \<Rightarrow> True | Clear \<Rightarrow> False
      | Add c x \<Rightarrow> cell_id_invalid (grid_size_m s) c \<and> compressed_m s)"
  using assms
  by (cases call)
     (auto simp: add_def clear_def Let_def dest: compress_Inr_compressed split: if_splits)

section \<open>Construction\<close>

subsection \<open>The stored cell count\<close>







subsection \<open>The constructor\<close>




text \<open>
  Claim C9, at the grid size \<open>(65537, 65537)\<close>. The constructor accepts it and stores the
  cell count 131073, which is also the length of the per-cell arrays, while the product of
  the two components is 4295098369: the \<open>int\<close> accumulator of \<open>std::accumulate\<close> has
  dropped the bits above the 32nd.
\<close>

theorem num_cells_truncated:
  "\<exists>s :: nat MultiGrid. MultiGrid [65537, 65537] 0 = Inr s
     \<and> unat (num_cells_m s) = 131073
     \<and> length (num_data_per_cell s) = 131073
     \<and> length (first_data_id_per_cell s) = 131073
     \<and> length (next_data_id_per_cell_buff s) = 131073
     \<and> prod_list (map unat [65537, 65537 :: size_t]) = 4295098369"
  by (simp add: MultiGrid_def Let_def accumulate_int_def)

section \<open>Appending\<close>

text \<open>
  Claim C5. For a cell id of the grid's dimension, \<open>add\<close> throws \<open>OutOfRange\<close> exactly when
  some component is not below the grid size's; it throws nothing else; when it throws, the
  object is unchanged; when it returns, the item and the cell id have been appended at the
  end of the two raw sequences, the compressed flag is false, and nothing else has changed.
\<close>

theorem add_spec:
  assumes "length cell_id = length (grid_size_m s)"
  shows "(fst (add cell_id x s) = Some OutOfRange
            \<longleftrightarrow> (\<exists>i<length (grid_size_m s). grid_size_m s ! i \<le> cell_id ! i))
       \<and> (fst (add cell_id x s) \<noteq> None
            \<longrightarrow> fst (add cell_id x s) = Some OutOfRange \<and> snd (add cell_id x s) = s)
       \<and> (fst (add cell_id x s) = None
            \<longrightarrow> snd (add cell_id x s)
                 = s\<lparr>compressed_m := False, raw_data := raw_data s @ [x],
                      raw_cell_ids := raw_cell_ids s @ [cell_id]\<rparr>)"
  by (simp add: add_def cell_id_invalid_iff Let_def)

theorem add_spec_witness:
  "(let s = projr (MultiGrid [2, 2] 0 :: error + nat MultiGrid) in
     length [2, 0 :: size_t] = length (grid_size_m s)
     \<and> add [2, 0] 7 s = (Some OutOfRange, s)
     \<and> fst (add [1, 0] 7 s) = None
     \<and> raw_data (snd (add [1, 0] 7 s)) = [7]
     \<and> raw_cell_ids (snd (add [1, 0] 7 s)) = [[1, 0]])"
proof -
  let ?s = "projr (MultiGrid [2, 2] 0 :: error + nat MultiGrid)"
  have gs: "grid_size_m ?s = [2, 2]" and raw: "raw_data ?s = []" "raw_cell_ids ?s = []"
    by (simp_all add: MultiGrid_def Let_def)
  have len: "length [2, 0 :: size_t] = length (grid_size_m ?s)"
    and len': "length [1, 0 :: size_t] = length (grid_size_m ?s)"
    by (simp_all add: gs)
  have out: "\<exists>i<length (grid_size_m ?s). grid_size_m ?s ! i \<le> [2, 0] ! i"
    by (rule exI [of _ 0]) (simp add: gs)
  have inr: "\<not> (\<exists>i<length (grid_size_m ?s). grid_size_m ?s ! i \<le> [1, 0] ! i)"
  proof -
    have "\<not> cell_id_invalid [2, 2] [1, 0]" by code_simp
    then show ?thesis unfolding gs cell_id_invalid_iff .
  qed
  note bad = add_spec [OF len, of 7] and good = add_spec [OF len', of 7]
  have "fst (add [2, 0] 7 ?s) = Some OutOfRange"
    using bad [THEN conjunct1] out by (rule iffD2)
  moreover from this have "snd (add [2, 0] 7 ?s) = ?s"
    using bad [THEN conjunct2, THEN conjunct1] by simp
  ultimately have 1: "add [2, 0] 7 ?s = (Some OutOfRange, ?s)"
    by (simp only: prod_eq_iff fst_conv snd_conv)
  have "fst (add [1, 0] 7 ?s) \<noteq> Some OutOfRange"
    using good [THEN conjunct1] inr by (simp only: not_False_eq_True)
  then have 2: "fst (add [1, 0] 7 ?s) = None"
    using good [THEN conjunct2, THEN conjunct1] by (cases "fst (add [1, 0] 7 ?s)") simp_all
  have upd: "snd (add [1, 0] 7 ?s)
      = ?s\<lparr>compressed_m := False, raw_data := raw_data ?s @ [7],
            raw_cell_ids := raw_cell_ids ?s @ [[1, 0]]\<rparr>"
    using good [THEN conjunct2, THEN conjunct2] 2 by (rule mp)
  have 3: "raw_data (snd (add [1, 0] 7 ?s)) = [7]"
    and 4: "raw_cell_ids (snd (add [1, 0] 7 ?s)) = [[1, 0]]"
    unfolding upd by (simp_all add: raw)
  show ?thesis unfolding Let_def by (intro conjI) (fact len, fact 1, fact 2, fact 3, fact 4)
qed

section \<open>Linearization\<close>

text \<open>
  In \<open>size_t\<close> arithmetic the loop computes the formula of the specification, whatever the
  grid size: the wrap-around is that of the sum and the products.
\<close>

lemma linearize_sum:
  "fold (\<lambda>i (storage_id, mult). (storage_id + cell_id ! i * mult, mult * grid_size ! i)) [0..<d] (0, 1)
    = ((\<Sum>i<d. cell_id ! i * (\<Prod>j<i. grid_size ! j)), (\<Prod>j<d. grid_size ! j :: size_t))"
  by (induction d) (simp_all add: mult.commute)

lemma linearize_word_sum:
  "linearize gs c = (\<Sum>i<length gs. c ! i * (\<Prod>j<i. gs ! j))"
  by (simp add: linearize_def linearize_sum)

lemma linearize_of_nat:
  assumes "length c = length gs"
  shows "linearize gs c = of_nat (linearize_spec (map unat gs) (map unat c))"
proof -
  have "(\<Sum>i<length gs. c ! i * (\<Prod>j<i. gs ! j))
      = (\<Sum>i<length gs. of_nat (unat (c ! i) * (\<Prod>j<i. unat (gs ! j))))"
    by (rule sum.cong) simp_all
  also have "\<dots> = of_nat (\<Sum>i<length gs. map unat c ! i * (\<Prod>j<i. map unat gs ! j))"
    using assms by simp
  finally show ?thesis by (simp add: linearize_word_sum linearize_spec_def)
qed

text \<open>
  The mixed-radix numeral system on natural numbers: the value of a digit sequence is below
  the product of the radices, determines the digits, and reaches every number below the
  product.
\<close>

lemma radix_bound:
  fixes ns cs :: "nat list"
  assumes "\<forall>i<d. cs ! i < ns ! i"
  shows "(\<Sum>i<d. cs ! i * (\<Prod>j<i. ns ! j)) < (\<Prod>j<d. ns ! j)"
  using assms
proof (induction d)
  case 0
  then show ?case by simp
next
  case (Suc d)
  let ?P = "\<Prod>j<d. ns ! j"
  have "(\<Sum>i<d. cs ! i * (\<Prod>j<i. ns ! j)) < ?P" using Suc by simp
  then have "(\<Sum>i<Suc d. cs ! i * (\<Prod>j<i. ns ! j)) < ?P + cs ! d * ?P" by simp
  also have "\<dots> = Suc (cs ! d) * ?P" by simp
  also have "\<dots> \<le> ns ! d * ?P"
    using Suc.prems by (intro mult_le_mono1) (simp add: Suc_leI)
  finally show ?case by (simp add: mult.commute)
qed

lemma div_add_mult_less:
  fixes a c P :: nat
  assumes "a < P"
  shows "(a + c * P) div P = c"
  using assms by simp

lemma radix_inj:
  fixes ns cs cs' :: "nat list"
  assumes "\<forall>i<d. cs ! i < ns ! i" "\<forall>i<d. cs' ! i < ns ! i"
    and "(\<Sum>i<d. cs ! i * (\<Prod>j<i. ns ! j)) = (\<Sum>i<d. cs' ! i * (\<Prod>j<i. ns ! j))"
  shows "\<forall>i<d. cs ! i = cs' ! i"
  using assms
proof (induction d)
  case 0
  then show ?case by simp
next
  case (Suc d)
  let ?P = "\<Prod>j<d. ns ! j"
  let ?L = "\<lambda>cs. \<Sum>i<d. cs ! i * (\<Prod>j<i. ns ! j)"
  have b: "?L cs < ?P" "?L cs' < ?P"
    using Suc.prems(1,2) by (simp_all add: radix_bound)
  have eq: "?L cs + cs ! d * ?P = ?L cs' + cs' ! d * ?P"
    using Suc.prems(3) by simp
  have dv: "(?L cs + cs ! d * ?P) div ?P = cs ! d" "(?L cs' + cs' ! d * ?P) div ?P = cs' ! d"
    using b by (simp_all only: div_add_mult_less)
  from eq have "(?L cs + cs ! d * ?P) div ?P = (?L cs' + cs' ! d * ?P) div ?P"
    by (rule arg_cong)
  then have top: "cs ! d = cs' ! d" by (simp only: dv)
  from eq have low: "?L cs = ?L cs'" unfolding top by (rule add_right_imp_eq)
  have "\<forall>i<d. cs ! i = cs' ! i"
  proof (rule Suc.IH)
    show "\<forall>i<d. cs ! i < ns ! i" "\<forall>i<d. cs' ! i < ns ! i"
      using Suc.prems(1,2) by simp_all
  qed (fact low)
  with top show ?case by (simp add: less_Suc_eq)
qed

lemma radix_surj:
  fixes ns :: "nat list"
  assumes "k < (\<Prod>j<d. ns ! j)"
  shows "\<exists>cs. length cs = d \<and> (\<forall>i<d. cs ! i < ns ! i)
            \<and> (\<Sum>i<d. cs ! i * (\<Prod>j<i. ns ! j)) = k"
  using assms
proof (induction d arbitrary: k)
  case 0
  then show ?case by simp
next
  case (Suc d)
  let ?P = "\<Prod>j<d. ns ! j"
  have k: "k < ?P * ns ! d" using Suc.prems by (simp add: mult.commute)
  then have pos: "0 < ?P" by (cases "?P = 0") simp_all
  then have "k mod ?P < ?P" by simp
  from Suc.IH [OF this] obtain cs where cs: "length cs = d" "\<forall>i<d. cs ! i < ns ! i"
    "(\<Sum>i<d. cs ! i * (\<Prod>j<i. ns ! j)) = k mod ?P" by blast
  have top: "k div ?P < ns ! d" using k pos by (simp add: less_mult_imp_div_less mult.commute)
  let ?cs = "cs @ [k div ?P]"
  have "length ?cs = Suc d" using cs by simp
  moreover have "\<forall>i<Suc d. ?cs ! i < ns ! i"
    using cs top by (auto simp: less_Suc_eq nth_append)
  moreover have "(\<Sum>i<Suc d. ?cs ! i * (\<Prod>j<i. ns ! j)) = k"
  proof -
    have "(\<Sum>i<d. ?cs ! i * (\<Prod>j<i. ns ! j)) = (\<Sum>i<d. cs ! i * (\<Prod>j<i. ns ! j))"
      using cs(1) by (intro sum.cong) (simp_all add: nth_append)
    then show ?thesis using cs by (simp add: nth_append mod_div_mult_eq)
  qed
  ultimately show ?case by blast
qed

lemma prod_list_nth: "prod_list (xs :: nat list) = (\<Prod>j<length xs. xs ! j)"
  by (simp add: prod.list_conv_set_nth atLeast0LessThan)

lemma valid_unat:
  "\<not> cell_id_invalid gs c \<Longrightarrow> \<forall>i<length gs. map unat c ! i < map unat gs ! i" if "length c = length gs"
  using that by (auto simp: cell_id_invalid_iff word_less_nat_alt not_le)

lemma linearize_spec_bound:
  assumes "length c = length gs" "\<not> cell_id_invalid gs c"
  shows "linearize_spec (map unat gs) (map unat c) < prod_list (map unat gs)"
  using radix_bound [OF valid_unat [OF assms]] by (simp add: linearize_spec_def prod_list_nth)

lemma linearize_unat:
  assumes "length c = length gs" "\<not> cell_id_invalid gs c"
    and "prod_list (map unat gs) < 2 ^ 64"
  shows "unat (linearize gs c) = linearize_spec (map unat gs) (map unat c)"
proof -
  have "linearize_spec (map unat gs) (map unat c) < 2 ^ 64"
    using linearize_spec_bound [OF assms(1,2)] assms(3) by simp
  then show ?thesis
    by (simp add: linearize_of_nat [OF assms(1)] unat_of_nat)
qed

lemma linearize_inj:
  assumes "length c = length gs" "\<not> cell_id_invalid gs c"
    and "length c' = length gs" "\<not> cell_id_invalid gs c'"
    and "prod_list (map unat gs) < 2 ^ 64"
    and "linearize gs c = linearize gs c'"
  shows "c = c'"
proof -
  have "linearize_spec (map unat gs) (map unat c) = linearize_spec (map unat gs) (map unat c')"
    using linearize_unat [OF assms(1,2,5)] linearize_unat [OF assms(3,4,5)] assms(6) by simp
  then have "\<forall>i<length gs. map unat c ! i = map unat c' ! i"
    using radix_inj [OF valid_unat [OF assms(1,2)] valid_unat [OF assms(3,4)]]
    by (simp add: linearize_spec_def)
  then have "\<forall>i<length gs. c ! i = c' ! i"
    using assms(1,3) by (simp add: word_unat_eq_iff)
  then show ?thesis using assms(1,3) by (simp add: list_eq_iff_nth_eq)
qed

lemma linearize_surj:
  assumes "k < prod_list (map unat gs)" "prod_list (map unat gs) < 2 ^ 64"
  shows "\<exists>c. length c = length gs \<and> \<not> cell_id_invalid gs c \<and> unat (linearize gs c) = k"
proof -
  from assms(1) have "k < (\<Prod>j<length gs. map unat gs ! j)"
    by (simp add: prod_list_nth)
  from radix_surj [OF this] obtain cs where cs: "length cs = length gs"
    "\<forall>i<length gs. cs ! i < map unat gs ! i"
    "(\<Sum>i<length gs. cs ! i * (\<Prod>j<i. map unat gs ! j)) = k" by blast
  let ?c = "map of_nat cs :: size_t list"
  have small: "cs ! i < 2 ^ 64" if "i < length gs" for i
  proof -
    have "cs ! i < unat (gs ! i)" using cs(2) that by simp
    also have "\<dots> < 2 ^ 64" using unsigned_less [of "gs ! i"] by simp
    finally show ?thesis .
  qed
  have roundtrip: "map unat ?c = cs"
    using cs(1) small by (simp add: list_eq_iff_nth_eq unat_of_nat)
  have len: "length ?c = length gs" using cs(1) by simp
  have valid: "\<not> cell_id_invalid gs ?c"
    unfolding cell_id_invalid_iff
  proof (intro notI, elim exE conjE)
    fix i assume i: "i < length gs" and le: "gs ! i \<le> ?c ! i"
    have "unat (?c ! i) = cs ! i" using i cs(1) small by (simp add: unat_of_nat)
    with le have "unat (gs ! i) \<le> cs ! i" by (simp add: word_le_nat_alt)
    moreover have "cs ! i < unat (gs ! i)" using cs(2) i by simp
    ultimately show False by simp
  qed
  have "unat (linearize gs ?c) = linearize_spec (map unat gs) (map unat ?c)"
    using len valid assms(2) by (rule linearize_unat)
  also have "\<dots> = k" unfolding roundtrip using cs(3) by (simp add: linearize_spec_def)
  finally show ?thesis using len valid by blast
qed

text \<open>
  Claim C3, for a grid size whose product fits \<open>size_t\<close> (is below \<open>2\<^sup>6\<^sup>4\<close>): on the cell
  ids of the grid's dimension that pass the range check, \<open>linearize\<close> returns the value of
  the specification's formula \<open>\<Sum> c\<^sub>i \<cdot> \<Prod>\<^bsub>j<i\<^esub> n\<^sub>j\<close>, and it is a bijection from these
  cell ids onto the numbers below the product of the grid size.
\<close>

theorem linearize_bijection:
  assumes "prod_list (map unat gs) < 2 ^ 64"
  shows "(\<forall>c. length c = length gs \<and> \<not> cell_id_invalid gs c \<longrightarrow>
            unat (linearize gs c) = linearize_spec (map unat gs) (map unat c))
       \<and> bij_betw (\<lambda>c. unat (linearize gs c))
            {c. length c = length gs \<and> \<not> cell_id_invalid gs c}
            {0..<prod_list (map unat gs)}"
proof (intro conjI allI impI)
  fix c assume "length c = length gs \<and> \<not> cell_id_invalid gs c"
  then show "unat (linearize gs c) = linearize_spec (map unat gs) (map unat c)"
    using assms by (simp add: linearize_unat)
next
  let ?V = "{c. length c = length gs \<and> \<not> cell_id_invalid gs c}"
  have inj: "inj_on (\<lambda>c. unat (linearize gs c)) ?V"
  proof (rule inj_onI)
    fix c c' assume "c \<in> ?V" "c' \<in> ?V" "unat (linearize gs c) = unat (linearize gs c')"
    then show "c = c'" using linearize_inj [of c gs c'] assms by (simp add: word_unat_eq_iff)
  qed
  have img: "(\<lambda>c. unat (linearize gs c)) ` ?V = {0..<prod_list (map unat gs)}"
  proof (intro equalityI subsetI)
    fix k assume "k \<in> (\<lambda>c. unat (linearize gs c)) ` ?V"
    then obtain c where c: "length c = length gs" "\<not> cell_id_invalid gs c"
      and k: "k = unat (linearize gs c)" by blast
    show "k \<in> {0..<prod_list (map unat gs)}"
      using linearize_spec_bound [OF c] linearize_unat [OF c assms] k by simp
  next
    fix k assume "k \<in> {0..<prod_list (map unat gs)}"
    then have "k < prod_list (map unat gs)" by simp
    from linearize_surj [OF this assms] show "k \<in> (\<lambda>c. unat (linearize gs c)) ` ?V"
      by (auto simp: image_iff)
  qed
  show "bij_betw (\<lambda>c. unat (linearize gs c)) ?V {0..<prod_list (map unat gs)}"
    using inj img by (simp add: bij_betw_def)
qed

theorem linearize_bijection_witness:
  "prod_list (map unat [3, 4 :: size_t]) < 2 ^ 64
   \<and> unat (linearize [3, 4] [2, 3]) = linearize_spec (map unat [3, 4 :: size_t]) (map unat [2, 3 :: size_t])
   \<and> linearize [3, 4] [2, 3] = 11
   \<and> bij_betw (\<lambda>c. unat (linearize [3, 4] c))
        {c. length c = length [3, 4 :: size_t] \<and> \<not> cell_id_invalid [3, 4] c}
        {0..<prod_list (map unat [3, 4 :: size_t])}"
proof -
  have fits: "prod_list (map unat [3, 4 :: size_t]) < 2 ^ 64" by simp
  note T = linearize_bijection [OF fits]
  have valid: "length [2, 3 :: size_t] = length [3, 4 :: size_t] \<and> \<not> cell_id_invalid [3, 4] [2, 3]"
    by code_simp
  have 1: "unat (linearize [3, 4] [2, 3])
         = linearize_spec (map unat [3, 4 :: size_t]) (map unat [2, 3 :: size_t])"
    using T [THEN conjunct1, THEN spec, of "[2, 3]"] valid by (rule mp)
  have 2: "linearize [3, 4] [2, 3] = 11" by code_simp
  show ?thesis
    by (intro conjI) (fact fits, fact 1, fact 2, rule T [THEN conjunct2])
qed

text \<open>
  Without the bound the bijection is lost. The grid size \<open>(2\<^sup>3\<^sup>2, 2\<^sup>3\<^sup>2, 2)\<close> has no zero
  component and the product \<open>2\<^sup>6\<^sup>5\<close>; the cell ids \<open>(0, 0, 0)\<close> and \<open>(0, 0, 1)\<close> are both
  in range, and both linearize to 0: the multiplier of the last coordinate is \<open>2\<^sup>6\<^sup>4\<close>,
  which is 0 in \<open>size_t\<close>.
\<close>

theorem linearize_bijection_counterexample:
  "prod_list (map unat [4294967296, 4294967296, 2 :: size_t]) = 2 ^ 65
   \<and> (\<not> list_ex (\<lambda>i. [4294967296, 4294967296, 2 :: size_t] ! i = 0) [0..<3]
     \<and> \<not> cell_id_invalid [4294967296, 4294967296, 2] [0, 0, 0]
     \<and> \<not> cell_id_invalid [4294967296, 4294967296, 2] [0, 0, 1]
     \<and> linearize [4294967296, 4294967296, 2] [0, 0, 0] = 0
     \<and> linearize [4294967296, 4294967296, 2] [0, 0, 1] = 0
     \<and> [0, 0, 0] \<noteq> [0, 0, 1 :: size_t])"
proof (rule conjI)
  show "prod_list (map unat [4294967296, 4294967296, 2 :: size_t]) = 2 ^ 65"
    by simp
qed code_simp

section \<open>The three passes of compress\<close>

subsection \<open>Counts, offsets and items of a prefix of the raw buffer\<close>

lemma spec_count_Nil [simp]: "spec_count gs [] k = 0"
  by (simp add: spec_count_def)

lemma spec_count_Cons:
  "spec_count gs (c # cells) k
     = (if unat (linearize gs c) = k then 1 else 0) + spec_count gs cells k"
  by (simp add: spec_count_def)

lemma spec_count_append:
  "spec_count gs (cells @ cells') k = spec_count gs cells k + spec_count gs cells' k"
  by (simp add: spec_count_def)

lemma spec_count_take_Suc:
  assumes "i < length cells"
  shows "spec_count gs (take (Suc i) cells) k
     = spec_count gs (take i cells) k + (if unat (linearize gs (cells ! i)) = k then 1 else 0)"
  using assms by (simp add: take_Suc_conv_app_nth spec_count_append spec_count_Cons)

lemma spec_count_take_le: "spec_count gs (take i cells) k \<le> spec_count gs cells k"
proof -
  have "spec_count gs cells k
      = spec_count gs (take i cells) k + spec_count gs (drop i cells) k"
    by (simp add: spec_count_append [symmetric])
  then show ?thesis by simp
qed

lemma spec_count_take_less:
  assumes "i < length cells" "unat (linearize gs (cells ! i)) = k"
  shows "spec_count gs (take i cells) k < spec_count gs cells k"
proof -
  have "spec_count gs (take (Suc i) cells) k \<le> spec_count gs cells k"
    by (rule spec_count_take_le)
  then show ?thesis using assms by (simp add: spec_count_take_Suc)
qed

lemma spec_count_le_length: "spec_count gs cells k \<le> length cells"
  by (simp add: spec_count_def)

lemma length_spec_items:
  "length cells = length xs \<Longrightarrow> length (spec_items gs cells xs k) = spec_count gs cells k"
proof (induction cells xs rule: list_induct2)
  case Nil
  then show ?case by (simp add: spec_items_def)
next
  case (Cons c cells x xs)
  then show ?case by (simp add: spec_items_def spec_count_Cons)
qed

lemma spec_items_take_Suc:
  assumes "i < length cells" "length cells = length xs"
  shows "spec_items gs (take (Suc i) cells) (take (Suc i) xs) k
     = spec_items gs (take i cells) (take i xs) k
       @ (if unat (linearize gs (cells ! i)) = k then [xs ! i] else [])"
  using assms by (simp add: take_Suc_conv_app_nth spec_items_def)

lemma spec_start_0 [simp]: "spec_start gs cells 0 = 0"
  by (simp add: spec_start_def)

lemma spec_start_Suc:
  "spec_start gs cells (Suc k) = spec_start gs cells k + spec_count gs cells k"
  by (simp add: spec_start_def)

lemma spec_start_mono: "k \<le> k' \<Longrightarrow> spec_start gs cells k \<le> spec_start gs cells k'"
  by (induction k' rule: dec_induct) (simp_all add: spec_start_Suc)

lemma spec_start_next_le:
  assumes "k < k'"
  shows "spec_start gs cells k + spec_count gs cells k \<le> spec_start gs cells k'"
  using spec_start_mono [of "Suc k" k' gs cells] assms by (simp add: spec_start_Suc)

lemma spec_start_filter:
  "spec_start gs cells k = length (filter (\<lambda>c. unat (linearize gs c) < k) cells)"
proof (induction k)
  case 0
  then show ?case by simp
next
  case (Suc k)
  have "length (filter (\<lambda>c. unat (linearize gs c) < Suc k) cells)
      = length (filter (\<lambda>c. unat (linearize gs c) < k) cells)
        + length (filter (\<lambda>c. unat (linearize gs c) = k) cells)"
    by (induction cells) (auto simp: less_Suc_eq)
  with Suc show ?case by (simp add: spec_start_Suc spec_count_def)
qed

lemma spec_start_le_length: "spec_start gs cells k \<le> length cells"
  by (simp add: spec_start_filter)

lemma spec_start_total:
  assumes "\<forall>c\<in>set cells. unat (linearize gs c) < n"
  shows "spec_start gs cells n = length cells"
  using assms by (simp add: spec_start_filter)

subsection \<open>Count pass and prefix pass\<close>

lemma count_pass_correct:
  assumes "\<forall>c\<in>set cells. unat (linearize gs c) < length num"
  shows "count_pass gs cells num
           = Inr (map (\<lambda>k. num ! k + of_nat (spec_count gs cells k)) [0..<length num])"
  using assms
proof (induction cells arbitrary: num)
  case Nil
  then show ?case by (simp add: map_nth)
next
  case (Cons c cells)
  let ?sid = "unat (linearize gs c)"
  let ?num = "num[?sid := num ! ?sid + 1]"
  have sid: "?sid < length num" using Cons.prems by simp
  have "count_pass gs (c # cells) num = count_pass gs cells ?num"
    using sid by (simp add: Let_def)
  also have "\<dots> = Inr (map (\<lambda>k. ?num ! k + of_nat (spec_count gs cells k)) [0..<length ?num])"
    using Cons.prems by (intro Cons.IH) simp
  also have "map (\<lambda>k. ?num ! k + of_nat (spec_count gs cells k)) [0..<length ?num]
           = map (\<lambda>k. num ! k + of_nat (spec_count gs (c # cells) k)) [0..<length num]"
    using sid by (auto simp: spec_count_Cons nth_list_update)
  finally show ?case .
qed

lemma prefix_pass_correct:
  assumes "n \<le> length first" "n \<le> length num" "i \<le> n"
    and "buff = (\<Sum>k<i. num ! k)"
  shows "\<exists>first'. prefix_pass i n num first buff = Inr first'
           \<and> length first' = length first
           \<and> (\<forall>c<length first. first' ! c
                  = (if i \<le> c \<and> c < n then (\<Sum>k<c. num ! k) else first ! c))"
  using assms
proof (induction "n - i" arbitrary: i first buff)
  case 0
  then have "i = n" by simp
  then show ?case by (subst prefix_pass.simps) auto
next
  case (Suc m)
  then have i: "i < n" by simp
  let ?first = "first[i := buff]"
  have step: "prefix_pass i n num first buff = prefix_pass (Suc i) n num ?first (buff + num ! i)"
    using i Suc.prems(1,2) by (subst prefix_pass.simps) simp
  have "\<exists>first'. prefix_pass (Suc i) n num ?first (buff + num ! i) = Inr first'
           \<and> length first' = length ?first
           \<and> (\<forall>c<length ?first. first' ! c
                  = (if Suc i \<le> c \<and> c < n then (\<Sum>k<c. num ! k) else ?first ! c))"
  proof (rule Suc.hyps(1))
    show "m = n - Suc i" using Suc.hyps(2) by simp
    show "n \<le> length ?first" using Suc.prems(1) by simp
    show "n \<le> length num" by (rule Suc.prems(2))
    show "Suc i \<le> n" using i by simp
    show "buff + num ! i = (\<Sum>k<Suc i. num ! k)" using Suc.prems(4) by simp
  qed
  then obtain first' where r: "prefix_pass (Suc i) n num ?first (buff + num ! i) = Inr first'"
    "length first' = length first"
    "\<forall>c<length first. first' ! c
        = (if Suc i \<le> c \<and> c < n then (\<Sum>k<c. num ! k) else ?first ! c)"
    by auto
  have "\<forall>c<length first. first' ! c
          = (if i \<le> c \<and> c < n then (\<Sum>k<c. num ! k) else first ! c)"
  proof (intro allI impI)
    fix c assume c: "c < length first"
    show "first' ! c = (if i \<le> c \<and> c < n then (\<Sum>k<c. num ! k) else first ! c)"
    proof (cases "c = i")
      case True
      then show ?thesis using r(3) c i Suc.prems(4) by simp
    next
      case False
      then show ?thesis using r(3) c by (auto simp: Suc_le_eq)
    qed
  qed
  with r(1,2) step show ?case by simp
qed

subsection \<open>Scatter pass\<close>

text \<open>
  The loop invariant after \<open>i\<close> raw entries: the scratch offset of every storage id is its
  start offset plus the number of its entries among the first \<open>i\<close>, and the slots from its
  start offset on hold the items of those entries in the order of the raw buffer. The
  segments of different storage ids do not overlap, so a write into one leaves the others
  alone.
\<close>

lemma scatter_pass_correct:
  fixes xs :: "'a list"
  assumes len: "length cells = length xs"
    and small: "length xs < 2 ^ 64"
    and keys: "\<forall>c\<in>set cells. unat (linearize gs c) < C"
    and i: "i \<le> length xs"
    and nxt: "length next = C"
      "\<forall>k<C. next ! k = of_nat (spec_start gs cells k + spec_count gs (take i cells) k)"
    and dat: "length dat = length xs"
      "\<forall>k<C. \<forall>j < spec_count gs (take i cells) k.
          dat ! (spec_start gs cells k + j) = spec_items gs (take i cells) (take i xs) k ! j"
  shows "\<exists>next' dat'. scatter_pass gs i (length xs) xs cells next dat = Inr (next', dat')
      \<and> length next' = C \<and> length dat' = length xs
      \<and> (\<forall>k<C. next' ! k = of_nat (spec_start gs cells k + spec_count gs cells k))
      \<and> (\<forall>k<C. \<forall>j < spec_count gs cells k.
             dat' ! (spec_start gs cells k + j) = spec_items gs cells xs k ! j)"
  using i nxt dat
proof (induction "length xs - i" arbitrary: i "next" dat)
  case 0
  then have "i = length xs" by simp
  then show ?case
    using 0 len by (subst scatter_pass.simps) simp
next
  case (Suc m)
  then have i: "i < length xs" by simp
  let ?sid = "unat (linearize gs (cells ! i))"
  let ?ci = "\<lambda>k. spec_count gs (take i cells) k"
  let ?st = "spec_start gs cells"
  have sid: "?sid < C" using keys i len by simp
  have less: "?ci ?sid < spec_count gs cells ?sid"
    using i len by (intro spec_count_take_less) simp_all
  have "?st ?sid + spec_count gs cells ?sid \<le> ?st (Suc ?sid)"
    by (simp add: spec_start_Suc)
  also have "\<dots> \<le> length cells" by (rule spec_start_le_length)
  finally have top: "?st ?sid + spec_count gs cells ?sid \<le> length xs" using len by simp
  let ?nid = "?st ?sid + ?ci ?sid"
  have nid_lt: "?nid < length xs" using less top by simp
  have "?nid < 2 ^ 64" using nid_lt small by (rule less_trans)
  then have "unat (of_nat ?nid :: size_t) = ?nid" by (rule unat_of_nat_small)
  moreover have "next ! ?sid = of_nat ?nid" using Suc.prems(3) sid by blast
  ultimately have nid: "unat (next ! ?sid) = ?nid" by (simp only:)
  let ?next = "next[?sid := next ! ?sid + 1]"
  let ?dat = "dat[?nid := xs ! i]"
  have step: "scatter_pass gs i (length xs) xs cells next dat
            = scatter_pass gs (Suc i) (length xs) xs cells ?next ?dat"
    using i len sid nid nid_lt Suc.prems(2,4)
    by (subst scatter_pass.simps) (simp add: Let_def)
  have cnt_Suc: "spec_count gs (take (Suc i) cells) k
      = ?ci k + (if ?sid = k then 1 else 0)" for k
    using i len by (simp add: spec_count_take_Suc)
  have items_Suc: "spec_items gs (take (Suc i) cells) (take (Suc i) xs) k
     = spec_items gs (take i cells) (take i xs) k @ (if ?sid = k then [xs ! i] else [])" for k
    using i len by (simp add: spec_items_take_Suc)
  have len_items: "length (spec_items gs (take i cells) (take i xs) k) = ?ci k" for k
    using len by (simp add: length_spec_items)
  have next_ok: "\<forall>k<C. ?next ! k
       = of_nat (?st k + spec_count gs (take (Suc i) cells) k)"
  proof (intro allI impI)
    fix k assume k: "k < C"
    show "?next ! k = of_nat (?st k + spec_count gs (take (Suc i) cells) k)"
      using Suc.prems(2,3) k sid by (cases "k = ?sid") (simp_all add: cnt_Suc)
  qed
  have dat_ok: "\<forall>k<C. \<forall>j < spec_count gs (take (Suc i) cells) k.
      ?dat ! (?st k + j) = spec_items gs (take (Suc i) cells) (take (Suc i) xs) k ! j"
  proof (intro allI impI)
    fix k j assume k: "k < C" and j: "j < spec_count gs (take (Suc i) cells) k"
    show "?dat ! (?st k + j) = spec_items gs (take (Suc i) cells) (take (Suc i) xs) k ! j"
    proof (cases "k = ?sid")
      case True
      show ?thesis
      proof (cases "j = ?ci k")
        case True
        with \<open>k = ?sid\<close> show ?thesis
          using nid_lt Suc.prems(4) by (simp add: items_Suc nth_append len_items)
      next
        case False
        with j \<open>k = ?sid\<close> have j': "j < ?ci k" by (simp add: cnt_Suc)
        have "?dat ! (?st k + j) = dat ! (?st k + j)"
          using False \<open>k = ?sid\<close> by simp
        also have "\<dots> = spec_items gs (take i cells) (take i xs) k ! j"
          using Suc.prems(5) k j' by simp
        finally show ?thesis using j' by (simp add: items_Suc nth_append len_items)
      qed
    next
      case False
      with j have j': "j < ?ci k" by (simp add: cnt_Suc)
      have jc: "j < spec_count gs cells k"
        using j' spec_count_take_le [of gs i cells k] by simp
      have "?st k + j \<noteq> ?nid"
      proof (cases "k < ?sid")
        case True
        then have "?st k + spec_count gs cells k \<le> ?st ?sid" by (rule spec_start_next_le)
        with jc show ?thesis by simp
      next
        case False
        with \<open>k \<noteq> ?sid\<close> have "?sid < k" by simp
        then have "?st ?sid + spec_count gs cells ?sid \<le> ?st k" by (rule spec_start_next_le)
        with less show ?thesis by simp
      qed
      then have "?dat ! (?st k + j) = dat ! (?st k + j)" by simp
      also have "\<dots> = spec_items gs (take i cells) (take i xs) k ! j"
        using Suc.prems(5) k j' by simp
      finally show ?thesis using False by (simp add: items_Suc)
    qed
  qed
  have "\<exists>next' dat'. scatter_pass gs (Suc i) (length xs) xs cells ?next ?dat = Inr (next', dat')
      \<and> length next' = C \<and> length dat' = length xs
      \<and> (\<forall>k<C. next' ! k = of_nat (spec_start gs cells k + spec_count gs cells k))
      \<and> (\<forall>k<C. \<forall>j < spec_count gs cells k.
             dat' ! (spec_start gs cells k + j) = spec_items gs cells xs k ! j)"
  proof (rule Suc.hyps(1))
    show "m = length xs - Suc i" using Suc.hyps(2) by simp
    show "Suc i \<le> length xs" using i by simp
    show "length ?next = C" using Suc.prems(2) by simp
    show "length ?dat = length xs" using Suc.prems(4) by simp
  qed (fact next_ok, fact dat_ok)
  then show ?case by (simp only: step)
qed

lemma segment_eqI:
  assumes "st + n \<le> length dat" "length ys = n" "\<forall>j<n. dat ! (st + j) = ys ! j"
  shows "take n (drop st dat) = ys"
proof (rule nth_equalityI)
  show "length (take n (drop st dat)) = length ys" using assms(1,2) by simp
  fix j assume "j < length (take n (drop st dat))"
  then have j: "j < n" by simp
  then have "take n (drop st dat) ! j = dat ! (st + j)" using assms(1) by simp
  with j assms(3) show "take n (drop st dat) ! j = ys ! j" by simp
qed

subsection \<open>The whole of compress\<close>

lemma compress_correct:
  fixes s :: "'a MultiGrid"
  assumes unc: "\<not> compressed_m s"
    and len: "length (raw_cell_ids s) = length (raw_data s)"
    and small: "length (raw_data s) < 2 ^ 64"
    and lnum: "length (num_data_per_cell s) = unat (num_cells_m s)"
    and lfirst: "length (first_data_id_per_cell s) = unat (num_cells_m s)"
    and keys: "\<forall>c\<in>set (raw_cell_ids s). unat (linearize (grid_size_m s) c) < unat (num_cells_m s)"
  shows "\<exists>dat nxt. compress dflt s
           = Inr (s\<lparr>data := dat,
                    num_data_per_cell := map (\<lambda>k. of_nat (spec_count (grid_size_m s) (raw_cell_ids s) k))
                                            [0..<unat (num_cells_m s)],
                    first_data_id_per_cell := map (\<lambda>k. of_nat (spec_start (grid_size_m s) (raw_cell_ids s) k))
                                            [0..<unat (num_cells_m s)],
                    next_data_id_per_cell_buff := nxt, compressed_m := True\<rparr>)
         \<and> length dat = length (raw_data s)
         \<and> (\<forall>k<unat (num_cells_m s).
               take (spec_count (grid_size_m s) (raw_cell_ids s) k)
                 (drop (spec_start (grid_size_m s) (raw_cell_ids s) k) dat)
               = spec_items (grid_size_m s) (raw_cell_ids s) (raw_data s) k)"
proof -
  let ?gs = "grid_size_m s" and ?cells = "raw_cell_ids s" and ?xs = "raw_data s"
  let ?C = "unat (num_cells_m s)"
  let ?num = "map (\<lambda>k. of_nat (spec_count ?gs ?cells k)) [0..<?C] :: size_t list"
  let ?first = "map (\<lambda>k. of_nat (spec_start ?gs ?cells k)) [0..<?C] :: size_t list"
  have cp: "count_pass ?gs ?cells (replicate (length (num_data_per_cell s)) 0) = Inr ?num"
    using keys by (subst count_pass_correct) (simp_all add: lnum)
  obtain first' where pp: "prefix_pass 0 ?C ?num (replicate (length (first_data_id_per_cell s)) 0) 0
        = Inr first'"
    and lf': "length first' = ?C"
    and f': "\<forall>c<?C. first' ! c = (\<Sum>k<c. ?num ! k)"
    using prefix_pass_correct [of ?C "replicate (length (first_data_id_per_cell s)) 0" ?num 0 0]
    by (auto simp: lfirst)
  have "first' = ?first"
  proof (rule nth_equalityI)
    show "length first' = length ?first" using lf' by simp
    fix c assume "c < length first'"
    then have c: "c < ?C" using lf' by simp
    then have "first' ! c = (\<Sum>k<c. ?num ! k)" using f' by simp
    also have "\<dots> = (\<Sum>k<c. of_nat (spec_count ?gs ?cells k))"
      using c by (intro sum.cong) simp_all
    also have "\<dots> = of_nat (spec_start ?gs ?cells c)"
      by (simp add: spec_start_def interv_sum_list_conv_sum_set_nat atLeast0LessThan)
    finally show "first' ! c = ?first ! c" using c by simp
  qed
  with pp have pp': "prefix_pass 0 ?C ?num (replicate (length (first_data_id_per_cell s)) 0) 0
        = Inr ?first" by simp
  obtain nxt dat where sp: "scatter_pass ?gs 0 (length ?xs) ?xs ?cells ?first
        (resize dflt (length ?xs) (data s)) = Inr (nxt, dat)"
    and ld: "length dat = length ?xs"
    and seg: "\<forall>k<?C. \<forall>j < spec_count ?gs ?cells k.
             dat ! (spec_start ?gs ?cells k + j) = spec_items ?gs ?cells ?xs k ! j"
    using scatter_pass_correct [OF len small keys, of 0 ?first "resize dflt (length ?xs) (data s)"]
    by auto
  have segs: "\<forall>k<?C. take (spec_count ?gs ?cells k) (drop (spec_start ?gs ?cells k) dat)
               = spec_items ?gs ?cells ?xs k"
  proof (intro allI impI)
    fix k assume k: "k < ?C"
    have "spec_start ?gs ?cells k + spec_count ?gs ?cells k = spec_start ?gs ?cells (Suc k)"
      by (simp add: spec_start_Suc)
    also have "\<dots> \<le> length ?cells" by (rule spec_start_le_length)
    finally have "spec_start ?gs ?cells k + spec_count ?gs ?cells k \<le> length dat"
      using len ld by simp
    then show "take (spec_count ?gs ?cells k) (drop (spec_start ?gs ?cells k) dat)
               = spec_items ?gs ?cells ?xs k"
      using seg k len by (intro segment_eqI) (simp_all add: length_spec_items)
  qed
  have "compress dflt s = Inr (s\<lparr>data := dat, num_data_per_cell := ?num,
          first_data_id_per_cell := ?first, next_data_id_per_cell_buff := nxt,
          compressed_m := True\<rparr>)"
    using unc by (simp add: compress_def cp pp' sp)
  with ld segs show ?thesis by blast
qed

section \<open>Reachable states\<close>

lemma storage_id_in_bounds:
  assumes "unat n = prod_list (map unat gs)"
    and "length c = length gs" "\<not> cell_id_invalid gs c"
  shows "unat (linearize gs c) < unat (n :: size_t)"
proof -
  have "unat n < 2 ^ 64" using unsigned_less [of n] by simp
  then have fits: "prod_list (map unat gs) < 2 ^ 64" using assms(1) by simp
  show ?thesis
    using linearize_spec_bound [OF assms(2,3)] linearize_unat [OF assms(2,3) fits] assms(1)
    by simp
qed

lemma state_ok_keys:
  assumes "state_ok s"
  shows "\<forall>c\<in>set (raw_cell_ids s). unat (linearize (grid_size_m s) c) < unat (num_cells_m s)"
proof
  fix c assume "c \<in> set (raw_cell_ids s)"
  with assms have "length c = length (grid_size_m s)" "\<not> cell_id_invalid (grid_size_m s) c"
    by (simp_all add: state_ok_def list_all_iff)
  moreover from assms have "unat (num_cells_m s) = prod_list (map unat (grid_size_m s))"
    by (simp add: state_ok_def)
  ultimately show "unat (linearize (grid_size_m s) c) < unat (num_cells_m s)"
    by (intro storage_id_in_bounds)
qed

lemma state_ok_fits: "state_ok s \<Longrightarrow> prod_list (map unat (grid_size_m s)) < 2 ^ 64"
proof -
  assume "state_ok s"
  then have "unat (num_cells_m s) = prod_list (map unat (grid_size_m s))"
    by (simp add: state_ok_def)
  moreover have "unat (num_cells_m s) < 2 ^ 64" using unsigned_less [of "num_cells_m s"] by simp
  ultimately show ?thesis by simp
qed

lemma state_ok_MultiGrid:
  assumes "MultiGrid grid_size buff_size = Inr s"
    and "unat (num_cells_m s) = prod_list (map unat grid_size)"
  shows "state_ok s"
  using assms by (auto simp: MultiGrid_def Let_def state_ok_def split: if_splits)

lemma state_ok_add:
  assumes "state_ok s" "length cell_id = length (grid_size_m s)"
    and "Suc (length (raw_data s)) < 2 ^ 64"
  shows "state_ok (snd (add cell_id x s))"
  using assms by (auto simp: add_def Let_def state_ok_def)

lemma state_ok_clear: "state_ok s \<Longrightarrow> state_ok (clear s)"
  by (auto simp: clear_def Let_def state_ok_def)

lemma state_ok_compress:
  assumes "state_ok s"
  shows "\<exists>s'. compress dflt s = Inr s' \<and> state_ok s' \<and> compressed_m s'
           \<and> grid_size_m s' = grid_size_m s \<and> num_cells_m s' = num_cells_m s
           \<and> raw_data s' = raw_data s \<and> raw_cell_ids s' = raw_cell_ids s"
proof (cases "compressed_m s")
  case True
  then show ?thesis using assms by (simp add: compress_def)
next
  case False
  from compress_correct [OF False, of dflt] assms state_ok_keys [OF assms]
  obtain dat nxt where c: "compress dflt s
           = Inr (s\<lparr>data := dat,
                    num_data_per_cell := map (\<lambda>k. of_nat (spec_count (grid_size_m s) (raw_cell_ids s) k))
                                            [0..<unat (num_cells_m s)],
                    first_data_id_per_cell := map (\<lambda>k. of_nat (spec_start (grid_size_m s) (raw_cell_ids s) k))
                                            [0..<unat (num_cells_m s)],
                    next_data_id_per_cell_buff := nxt, compressed_m := True\<rparr>)"
    and ld: "length dat = length (raw_data s)"
    and seg: "\<forall>k<unat (num_cells_m s).
               take (spec_count (grid_size_m s) (raw_cell_ids s) k)
                 (drop (spec_start (grid_size_m s) (raw_cell_ids s) k) dat)
               = spec_items (grid_size_m s) (raw_cell_ids s) (raw_data s) k"
    unfolding state_ok_def by blast
  show ?thesis
    unfolding c using assms ld seg
    by (simp add: state_ok_def compressed_ok_def list_all_iff)
qed

lemma state_ok_step:
  assumes "state_ok s" "\<forall>c x. call = Add c x \<longrightarrow> length c = length (grid_size_m s)"
    and "Suc (length (raw_data s)) < 2 ^ 64"
  shows "\<exists>s'. step dflt s call = Inr s' \<and> state_ok s'
           \<and> grid_size_m s' = grid_size_m s \<and> num_cells_m s' = num_cells_m s
           \<and> length (raw_data s') \<le> Suc (length (raw_data s))"
proof (cases call)
  case (Add c x)
  then show ?thesis
    using assms state_ok_add [of s c x] by (auto simp: add_def Let_def)
next
  case Clear
  then show ?thesis using assms state_ok_clear [of s] by (auto simp: clear_def Let_def)
next
  case Compress
  then show ?thesis using state_ok_compress [OF assms(1), of dflt] by auto
qed

lemma state_ok_run:
  assumes "state_ok s"
    and "\<forall>c x. Add c x \<in> set calls \<longrightarrow> length c = length (grid_size_m s)"
    and "length (raw_data s) + length calls < 2 ^ 64"
  shows "\<exists>s'. run dflt s calls = Inr s' \<and> state_ok s'
           \<and> grid_size_m s' = grid_size_m s \<and> num_cells_m s' = num_cells_m s
           \<and> length (raw_data s') \<le> length (raw_data s) + length calls"
  using assms
proof (induction calls arbitrary: s)
  case Nil
  then show ?case by simp
next
  case (Cons call calls)
  have "\<exists>s'. step dflt s call = Inr s' \<and> state_ok s'
           \<and> grid_size_m s' = grid_size_m s \<and> num_cells_m s' = num_cells_m s
           \<and> length (raw_data s') \<le> Suc (length (raw_data s))"
    using Cons.prems by (intro state_ok_step) auto
  then obtain s1 where s1: "step dflt s call = Inr s1" "state_ok s1"
    "grid_size_m s1 = grid_size_m s" "num_cells_m s1 = num_cells_m s"
    "length (raw_data s1) \<le> Suc (length (raw_data s))" by blast
  have "\<exists>s'. run dflt s1 calls = Inr s' \<and> state_ok s'
           \<and> grid_size_m s' = grid_size_m s1 \<and> num_cells_m s' = num_cells_m s1
           \<and> length (raw_data s') \<le> length (raw_data s1) + length calls"
    using Cons.prems s1 by (intro Cons.IH) auto
  then show ?case using s1 by auto
qed

lemma run_from_MultiGrid:
  assumes ctor: "MultiGrid grid_size buff_size = Inr s0"
    and exact: "unat (num_cells_m s0) = prod_list (map unat grid_size)"
    and typed: "\<forall>c x. Add c x \<in> set calls \<longrightarrow> length c = length grid_size"
    and small: "length calls < 2 ^ 64"
  shows "\<exists>s. run dflt s0 calls = Inr s \<and> state_ok s \<and> grid_size_m s = grid_size"
proof -
  note f = MultiGrid_fields [OF ctor]
  have ok0: "state_ok s0" using ctor exact by (rule state_ok_MultiGrid)
  have "\<exists>s'. run dflt s0 calls = Inr s' \<and> state_ok s'
           \<and> grid_size_m s' = grid_size_m s0 \<and> num_cells_m s' = num_cells_m s0
           \<and> length (raw_data s') \<le> length (raw_data s0) + length calls"
    using ok0 typed small by (intro state_ok_run) (simp_all add: f)
  then show ?thesis using f(1) by auto
qed

lemma run_compress_from_MultiGrid:
  assumes ctor: "MultiGrid grid_size buff_size = Inr s0"
    and exact: "unat (num_cells_m s0) = prod_list (map unat grid_size)"
    and typed: "\<forall>c x. Add c x \<in> set calls \<longrightarrow> length c = length grid_size"
    and small: "length calls < 2 ^ 64"
  shows "\<exists>s1 s. run dflt s0 calls = Inr s1 \<and> run dflt s0 (calls @ [Compress]) = Inr s
           \<and> state_ok s \<and> compressed_m s \<and> grid_size_m s = grid_size
           \<and> raw_data s = raw_data s1 \<and> raw_cell_ids s = raw_cell_ids s1"
proof -
  from run_from_MultiGrid [OF assms, of dflt] obtain s1
    where s1: "run dflt s0 calls = Inr s1" "state_ok s1" "grid_size_m s1 = grid_size" by blast
  from state_ok_compress [OF s1(2), of dflt] obtain s
    where s: "compress dflt s1 = Inr s" "state_ok s" "compressed_m s"
      "grid_size_m s = grid_size_m s1" "raw_data s = raw_data s1" "raw_cell_ids s = raw_cell_ids s1"
    by blast
  have "run dflt s0 (calls @ [Compress]) = Inr s"
    by (simp add: run_append s1(1) s(1))
  with s1 s show ?thesis by simp
qed

lemma run_adds:
  assumes "\<forall>p\<in>set items. \<not> cell_id_invalid (grid_size_m s) (fst p)"
  shows "\<exists>s'. run dflt s (map (\<lambda>p. Add (fst p) (snd p)) items) = Inr s'
           \<and> raw_cell_ids s' = raw_cell_ids s @ map fst items
           \<and> raw_data s' = raw_data s @ map snd items"
  using assms
proof (induction items arbitrary: s)
  case Nil
  then show ?case by simp
next
  case (Cons p items)
  let ?s = "snd (add (fst p) (snd p) s)"
  have a: "grid_size_m ?s = grid_size_m s" "raw_cell_ids ?s = raw_cell_ids s @ [fst p]"
    "raw_data ?s = raw_data s @ [snd p]"
    using Cons.prems by (simp_all add: add_def Let_def)
  have "\<exists>s'. run dflt ?s (map (\<lambda>p. Add (fst p) (snd p)) items) = Inr s'
           \<and> raw_cell_ids s' = raw_cell_ids ?s @ map fst items
           \<and> raw_data s' = raw_data ?s @ map snd items"
    using Cons.prems by (intro Cons.IH) (simp add: a)
  then show ?case by (simp add: a)
qed

subsection \<open>Reading the compressed buffer\<close>

lemma compressed_lookup:
  assumes ok: "state_ok s" and c: "compressed_m s" and k: "k < unat (num_cells_m s)"
  shows "unat (num_data_per_cell s ! k) = spec_count (grid_size_m s) (raw_cell_ids s) k"
    and "unat (first_data_id_per_cell s ! k) = spec_start (grid_size_m s) (raw_cell_ids s) k"
    and "spec_start (grid_size_m s) (raw_cell_ids s) k
          + spec_count (grid_size_m s) (raw_cell_ids s) k \<le> length (data s)"
    and "take (spec_count (grid_size_m s) (raw_cell_ids s) k)
           (drop (spec_start (grid_size_m s) (raw_cell_ids s) k) (data s))
         = spec_items (grid_size_m s) (raw_cell_ids s) (raw_data s) k"
proof -
  let ?gs = "grid_size_m s" and ?cells = "raw_cell_ids s"
  from ok c have cok: "compressed_ok s" by (simp add: state_ok_def)
  from ok have len: "length ?cells = length (raw_data s)" and small: "length (raw_data s) < 2 ^ 64"
    by (simp_all add: state_ok_def)
  have "spec_count ?gs ?cells k \<le> length ?cells" by (rule spec_count_le_length)
  then have cnt: "spec_count ?gs ?cells k < 2 ^ 64" using len small by simp
  have "spec_start ?gs ?cells k \<le> length ?cells" by (rule spec_start_le_length)
  then have st: "spec_start ?gs ?cells k < 2 ^ 64" using len small by simp
  show "unat (num_data_per_cell s ! k) = spec_count ?gs ?cells k"
    using cok k cnt by (simp add: compressed_ok_def unat_of_nat_small)
  show "unat (first_data_id_per_cell s ! k) = spec_start ?gs ?cells k"
    using cok k st by (simp add: compressed_ok_def unat_of_nat_small)
  have "spec_start ?gs ?cells k + spec_count ?gs ?cells k = spec_start ?gs ?cells (Suc k)"
    by (simp add: spec_start_Suc)
  also have "\<dots> \<le> length ?cells" by (rule spec_start_le_length)
  finally show "spec_start ?gs ?cells k + spec_count ?gs ?cells k \<le> length (data s)"
    using cok len by (simp add: compressed_ok_def)
  show "take (spec_count ?gs ?cells k) (drop (spec_start ?gs ?cells k) (data s))
         = spec_items ?gs ?cells (raw_data s) k"
    using cok k by (simp add: compressed_ok_def list_all_iff)
qed

lemma csr_sums:
  assumes ok: "state_ok s" and c: "compressed_m s"
  shows "(\<Sum>k<unat (num_cells_m s). unat (num_data_per_cell s ! k)) = length (raw_data s)"
    and "\<forall>c<unat (num_cells_m s).
           unat (first_data_id_per_cell s ! c) = (\<Sum>k<c. unat (num_data_per_cell s ! k))"
    and "length (data s) = length (raw_data s)"
proof -
  let ?gs = "grid_size_m s" and ?cells = "raw_cell_ids s" and ?C = "unat (num_cells_m s)"
  have sum_count: "(\<Sum>k<c. unat (num_data_per_cell s ! k)) = spec_start ?gs ?cells c"
    if "c \<le> ?C" for c
  proof -
    have "(\<Sum>k<c. unat (num_data_per_cell s ! k)) = (\<Sum>k<c. spec_count ?gs ?cells k)"
      using that by (intro sum.cong) (simp_all add: compressed_lookup(1) [OF ok c])
    then show ?thesis
      by (simp add: spec_start_def interv_sum_list_conv_sum_set_nat atLeast0LessThan)
  qed
  have "spec_start ?gs ?cells ?C = length ?cells"
    using state_ok_keys [OF ok] by (rule spec_start_total)
  then show "(\<Sum>k<?C. unat (num_data_per_cell s ! k)) = length (raw_data s)"
    using ok by (simp add: sum_count state_ok_def)
  show "\<forall>c<?C. unat (first_data_id_per_cell s ! c) = (\<Sum>k<c. unat (num_data_per_cell s ! k))"
    by (simp add: sum_count compressed_lookup(2) [OF ok c])
  show "length (data s) = length (raw_data s)"
    using ok c by (simp add: state_ok_def compressed_ok_def)
qed

lemma enumerateData_compressed:
  assumes ok: "state_ok s" and c: "compressed_m s"
    and cid: "length cell_id = length (grid_size_m s)" "\<not> cell_id_invalid (grid_size_m s) cell_id"
  shows "enumerateData s cell_id
      = Inr \<lparr>begin_it = unat (first_data_id_per_cell s ! unat (linearize (grid_size_m s) cell_id)),
             end_it = unat (first_data_id_per_cell s ! unat (linearize (grid_size_m s) cell_id))
                    + unat (num_data_per_cell s ! unat (linearize (grid_size_m s) cell_id))\<rparr>"
    and "view s \<lparr>begin_it = unat (first_data_id_per_cell s ! unat (linearize (grid_size_m s) cell_id)),
             end_it = unat (first_data_id_per_cell s ! unat (linearize (grid_size_m s) cell_id))
                    + unat (num_data_per_cell s ! unat (linearize (grid_size_m s) cell_id))\<rparr>
         = spec_items (grid_size_m s) (raw_cell_ids s) (raw_data s)
             (unat (linearize (grid_size_m s) cell_id))"
proof -
  let ?sid = "unat (linearize (grid_size_m s) cell_id)"
  from ok have "unat (num_cells_m s) = prod_list (map unat (grid_size_m s))"
    by (simp add: state_ok_def)
  from this cid have sid: "?sid < unat (num_cells_m s)" by (rule storage_id_in_bounds)
  from ok have lens: "length (num_data_per_cell s) = unat (num_cells_m s)"
    "length (first_data_id_per_cell s) = unat (num_cells_m s)"
    by (simp_all add: state_ok_def)
  note L = compressed_lookup [OF ok c sid]
  show "enumerateData s cell_id
      = Inr \<lparr>begin_it = unat (first_data_id_per_cell s ! ?sid),
             end_it = unat (first_data_id_per_cell s ! ?sid) + unat (num_data_per_cell s ! ?sid)\<rparr>"
    using c cid(2) sid lens L(3) by (simp add: enumerateData_def Let_def L(1,2))
  show "view s \<lparr>begin_it = unat (first_data_id_per_cell s ! ?sid),
             end_it = unat (first_data_id_per_cell s ! ?sid) + unat (num_data_per_cell s ! ?sid)\<rparr>
         = spec_items (grid_size_m s) (raw_cell_ids s) (raw_data s) ?sid"
    using L(4) by (simp add: view_def L(1,2))
qed

lemma spec_items_by_cell:
  assumes fits: "prod_list (map unat gs) < 2 ^ 64"
    and cells: "\<forall>c\<in>set cells. length c = length gs \<and> \<not> cell_id_invalid gs c"
    and cid: "length cell_id = length gs" "\<not> cell_id_invalid gs cell_id"
  shows "spec_items gs cells xs (unat (linearize gs cell_id))
       = map snd (filter (\<lambda>p. fst p = cell_id) (zip cells xs))"
proof -
  have "filter (\<lambda>p. unat (linearize gs (fst p)) = unat (linearize gs cell_id)) (zip cells xs)
      = filter (\<lambda>p. fst p = cell_id) (zip cells xs)"
  proof (rule filter_cong [OF refl])
    fix p assume "p \<in> set (zip cells xs)"
    then have "fst p \<in> set cells"
      using set_zip_leftD [of "fst p" "snd p" cells xs] by simp
    with cells have p: "length (fst p) = length gs" "\<not> cell_id_invalid gs (fst p)" by simp_all
    show "(unat (linearize gs (fst p)) = unat (linearize gs cell_id)) = (fst p = cell_id)"
      using linearize_inj [OF p cid fits] by (auto simp: word_unat_eq_iff)
  qed
  then show ?thesis by (simp add: spec_items_def)
qed

lemma flag_after_run:
  assumes "run dflt s calls = Inr s'"
  shows "compressed_m s' \<longleftrightarrow>
      (\<exists>pre post. calls = pre @ Compress # post \<and> \<not> list_ex (mutating (grid_size_m s)) post)
      \<or> (compressed_m s \<and> \<not> list_ex (mutating (grid_size_m s)) calls)"
  using assms
proof (induction calls arbitrary: s)
  case Nil
  then show ?case by simp
next
  case (Cons call calls)
  then obtain s1 where s1: "step dflt s call = Inr s1" "run dflt s1 calls = Inr s'"
    by (auto split: sum.splits)
  note gs = step_grid_size [OF s1(1)]
  note IH = Cons.IH [OF s1(2), unfolded gs]
  let ?A = "\<exists>pre post. calls = pre @ Compress # post \<and> \<not> list_ex (mutating (grid_size_m s)) post"
  have dec: "(\<exists>pre post. call # calls = pre @ Compress # post
                 \<and> \<not> list_ex (mutating (grid_size_m s)) post)
           \<longleftrightarrow> (call = Compress \<and> \<not> list_ex (mutating (grid_size_m s)) calls) \<or> ?A"
    by (auto simp: Cons_eq_append_conv)
  show ?case
    unfolding dec IH using step_flag [OF s1(1)]
    by (cases call) auto
qed

section \<open>Compression\<close>

text \<open>
  The theorems on sequences of calls are about an object whose stored cell
  count \<open>num_cells_\<close> is the product of its grid size, which needs the product to fit
  \<open>size_t\<close>. The calls are typed as in C++: every cell id has the grid's dimension, and a
  sequence of calls is shorter than \<open>2\<^sup>6\<^sup>4\<close>, as the size of a \<open>std::vector\<close> is.
\<close>

text \<open>
  Claim C2, for an object whose stored cell count is the product of its grid size. After
  any sequence of calls, \<open>compress\<close> returns, and then the counts in
  \<open>num_data_per_cell\<close> add up to the number of raw items, which is the length of the
  compressed item array, and every \<open>first_data_id_per_cell[c]\<close> is the sum of the counts
  of the cells below \<open>c\<close> (0 for the first cell).
\<close>

theorem compress_csr_invariants:
  assumes "MultiGrid grid_size buff_size = Inr s0"
    and "unat (num_cells_m s0) = prod_list (map unat grid_size)"
    and "\<forall>c x. Add c x \<in> set calls \<longrightarrow> length c = length grid_size"
    and "length calls < 2 ^ 64"
  shows "\<exists>s. run dflt s0 (calls @ [Compress]) = Inr s
          \<and> (\<Sum>k<unat (num_cells_m s). unat (num_data_per_cell s ! k)) = length (raw_data s)
          \<and> length (data s) = length (raw_data s)
          \<and> (\<forall>c<unat (num_cells_m s).
                unat (first_data_id_per_cell s ! c) = (\<Sum>k<c. unat (num_data_per_cell s ! k)))"
proof -
  from run_compress_from_MultiGrid [OF assms, of dflt] obtain s
    where s: "run dflt s0 (calls @ [Compress]) = Inr s" "state_ok s" "compressed_m s" by blast
  from s(1) csr_sums [OF s(2,3)] show ?thesis by blast
qed

theorem compress_csr_invariants_witness:
  "(let s0 = \<lparr>grid_size_m = [2, 2], num_cells_m = 4, compressed_m = False,
              raw_data = [], raw_cell_ids = [], data = [],
              num_data_per_cell = [0, 0, 0, 0], first_data_id_per_cell = [0, 0, 0, 0],
              next_data_id_per_cell_buff = [0, 0, 0, 0]\<rparr> :: nat MultiGrid;
        calls = [Add [0, 0] 10, Add [1, 0] 20, Clear, Add [1, 1] 30, Add [0, 0] 11, Add [1, 1] 31]
    in MultiGrid [2, 2] 0 = Inr s0
       \<and> unat (num_cells_m s0) = prod_list (map unat [2, 2 :: size_t])
       \<and> (\<forall>c x. Add c x \<in> set calls \<longrightarrow> length c = length [2, 2 :: size_t])
       \<and> length calls < 2 ^ 64
       \<and> (\<exists>s. run 0 s0 (calls @ [Compress]) = Inr s
          \<and> (\<Sum>k<unat (num_cells_m s). unat (num_data_per_cell s ! k)) = length (raw_data s)
          \<and> length (data s) = length (raw_data s)
          \<and> (\<forall>c<unat (num_cells_m s).
                unat (first_data_id_per_cell s ! c) = (\<Sum>k<c. unat (num_data_per_cell s ! k)))))"
proof -
  let ?s0 = "\<lparr>grid_size_m = [2, 2], num_cells_m = 4, compressed_m = False,
              raw_data = [], raw_cell_ids = [], data = [],
              num_data_per_cell = [0, 0, 0, 0], first_data_id_per_cell = [0, 0, 0, 0],
              next_data_id_per_cell_buff = [0, 0, 0, 0]\<rparr> :: nat MultiGrid"
  let ?calls = "[Add [0, 0] 10, Add [1, 0] 20, Clear, Add [1, 1] 30, Add [0, 0] 11, Add [1, 1] 31]
                  :: nat operation list"
  have h1: "MultiGrid [2, 2] 0 = Inr ?s0" by code_simp
  have h2: "unat (num_cells_m ?s0) = prod_list (map unat [2, 2 :: size_t])" by simp
  have h3: "\<forall>c x. Add c x \<in> set ?calls \<longrightarrow> length c = length [2, 2 :: size_t]" by auto
  have h4: "length ?calls < 2 ^ 64" by simp
  show ?thesis
    unfolding Let_def
    by (intro conjI) (fact h1, fact h2, fact h3, fact h4, rule compress_csr_invariants [OF h1 h2 h3 h4])
qed

text \<open>
  The product of the grid size \<open>(2\<^sup>6\<^sup>3, 2)\<close> is \<open>2\<^sup>6\<^sup>4\<close>, which is 0 in \<open>size_t\<close>: the
  constructor accepts the grid size and leaves the per-cell arrays empty. \<open>add\<close> accepts
  the cell id \<open>(0, 0)\<close>, and the count pass of \<open>compress\<close> then increments
  \<open>num_data_per_cell[0]\<close> of an empty vector: the call has no defined outcome.
\<close>

theorem compress_csr_invariants_counterexample:
  "prod_list (map unat [9223372036854775808, 2 :: size_t]) = 2 ^ 64
   \<and> (let s0 = \<lparr>grid_size_m = [9223372036854775808, 2], num_cells_m = 0, compressed_m = False,
              raw_data = [], raw_cell_ids = [], data = [],
              num_data_per_cell = [], first_data_id_per_cell = [],
              next_data_id_per_cell_buff = []\<rparr> :: nat MultiGrid
    in MultiGrid [9223372036854775808, 2] 0 = Inr s0
       \<and> fst (add [0, 0] 10 s0) = None
       \<and> run 0 s0 ([Add [0, 0] 10] @ [Compress]) = Inl OutOfBounds)"
proof (intro conjI)
  show "prod_list (map unat [9223372036854775808, 2 :: size_t]) = 2 ^ 64"
    by simp
qed code_simp+

text \<open>
  Claim C1, for an object whose stored cell count is the product of its grid size. After
  construction, a sequence of \<open>add\<close> calls with in-range cell ids, and \<open>compress\<close>,
  \<open>enumerateData\<close> of an in-range cell id returns a view whose items are, as a multiset,
  the items that were added with this cell id, and whose length is the count stored for
  the cell's storage id.
\<close>

theorem enumerateData_after_compress:
  assumes "MultiGrid grid_size buff_size = Inr s0"
    and "unat (num_cells_m s0) = prod_list (map unat grid_size)"
    and "\<forall>p\<in>set items. length (fst p) = length grid_size \<and> \<not> cell_id_invalid grid_size (fst p)"
    and "length items < 2 ^ 64"
    and "length cell_id = length grid_size" "\<not> cell_id_invalid grid_size cell_id"
  shows "\<exists>s b. run dflt s0 (map (\<lambda>p. Add (fst p) (snd p)) items @ [Compress]) = Inr s
          \<and> enumerateData s cell_id = Inr b
          \<and> mset (view s b) = mset (map snd (filter (\<lambda>p. fst p = cell_id) items))
          \<and> length (view s b)
               = unat (num_data_per_cell s ! unat (linearize grid_size cell_id))"
proof -
  let ?calls = "map (\<lambda>p. Add (fst p) (snd p)) items"
  note f = MultiGrid_fields [OF assms(1)]
  have typed: "\<forall>c x. Add c x \<in> set ?calls \<longrightarrow> length c = length grid_size"
    using assms(3) by auto
  have small: "length ?calls < 2 ^ 64" using assms(4) by simp
  from run_compress_from_MultiGrid [OF assms(1,2) typed small, of dflt] obtain s1 s
    where s: "run dflt s0 ?calls = Inr s1" "run dflt s0 (?calls @ [Compress]) = Inr s"
      "state_ok s" "compressed_m s" "grid_size_m s = grid_size"
      "raw_data s = raw_data s1" "raw_cell_ids s = raw_cell_ids s1" by blast
  from run_adds [of items s0 dflt] assms(3) s(1)
  have raw: "raw_cell_ids s = map fst items" "raw_data s = map snd items"
    by (simp_all add: f s(6,7))
  let ?sid = "unat (linearize grid_size cell_id)"
  let ?b = "\<lparr>begin_it = unat (first_data_id_per_cell s ! ?sid),
             end_it = unat (first_data_id_per_cell s ! ?sid) + unat (num_data_per_cell s ! ?sid)\<rparr>"
  have cid: "length cell_id = length (grid_size_m s)" "\<not> cell_id_invalid (grid_size_m s) cell_id"
    using assms(5,6) s(5) by simp_all
  have e: "enumerateData s cell_id = Inr ?b"
    using enumerateData_compressed(1) [OF s(3,4) cid] by (simp add: s(5))
  have "view s ?b = spec_items grid_size (map fst items) (map snd items) ?sid"
    using enumerateData_compressed(2) [OF s(3,4) cid] by (simp add: s(5) raw)
  also have "\<dots> = map snd (filter (\<lambda>p. fst p = cell_id) (zip (map fst items) (map snd items)))"
    using state_ok_fits [OF s(3)] assms(3,5,6) by (intro spec_items_by_cell) (simp_all add: s(5))
  also have "zip (map fst items) (map snd items) = items"
    by (simp add: zip_map_fst_snd)
  finally have v: "view s ?b = map snd (filter (\<lambda>p. fst p = cell_id) items)" .
  have "length (view s ?b) = unat (num_data_per_cell s ! ?sid)"
  proof -
    have "unat (num_cells_m s) = prod_list (map unat (grid_size_m s))"
      using s(3) by (simp add: state_ok_def)
    from this cid have "unat (linearize (grid_size_m s) cell_id) < unat (num_cells_m s)"
      by (rule storage_id_in_bounds)
    then have sid: "?sid < unat (num_cells_m s)" by (simp add: s(5))
    have "view s ?b = spec_items (grid_size_m s) (raw_cell_ids s) (raw_data s) ?sid"
      using enumerateData_compressed(2) [OF s(3,4) cid] by (simp add: s(5))
    moreover have "length (raw_cell_ids s) = length (raw_data s)"
      using s(3) by (simp add: state_ok_def)
    ultimately show ?thesis
      by (simp add: length_spec_items compressed_lookup(1) [OF s(3,4) sid])
  qed
  with s(2) e v show ?thesis by (intro exI [of _ s] exI [of _ ?b]) simp
qed

theorem enumerateData_after_compress_witness:
  "(let s0 = \<lparr>grid_size_m = [2, 2], num_cells_m = 4, compressed_m = False,
              raw_data = [], raw_cell_ids = [], data = [],
              num_data_per_cell = [0, 0, 0, 0], first_data_id_per_cell = [0, 0, 0, 0],
              next_data_id_per_cell_buff = [0, 0, 0, 0]\<rparr> :: nat MultiGrid;
        items = [([0, 0], 10), ([1, 0], 20), ([0, 0], 11), ([1, 1], 30)]
    in MultiGrid [2, 2] 0 = Inr s0
       \<and> unat (num_cells_m s0) = prod_list (map unat [2, 2 :: size_t])
       \<and> (\<forall>p\<in>set items. length (fst p) = length [2, 2 :: size_t]
              \<and> \<not> cell_id_invalid [2, 2] (fst p))
       \<and> length items < 2 ^ 64
       \<and> length [0, 0 :: size_t] = length [2, 2 :: size_t]
       \<and> \<not> cell_id_invalid [2, 2] [0, 0]
       \<and> (\<exists>s b. run 0 s0 (map (\<lambda>p. Add (fst p) (snd p)) items @ [Compress]) = Inr s
            \<and> enumerateData s [0, 0] = Inr b
            \<and> mset (view s b) = mset (map snd (filter (\<lambda>p. fst p = [0, 0]) items))
            \<and> length (view s b) = unat (num_data_per_cell s ! unat (linearize [2, 2] [0, 0]))))"
proof -
  let ?s0 = "\<lparr>grid_size_m = [2, 2], num_cells_m = 4, compressed_m = False,
              raw_data = [], raw_cell_ids = [], data = [],
              num_data_per_cell = [0, 0, 0, 0], first_data_id_per_cell = [0, 0, 0, 0],
              next_data_id_per_cell_buff = [0, 0, 0, 0]\<rparr> :: nat MultiGrid"
  let ?items = "[([0, 0], 10), ([1, 0], 20), ([0, 0], 11), ([1, 1], 30)] :: (CellId \<times> nat) list"
  have h1: "MultiGrid [2, 2] 0 = Inr ?s0" by code_simp
  have h2: "unat (num_cells_m ?s0) = prod_list (map unat [2, 2 :: size_t])" by simp
  have "list_all (\<lambda>p. length (fst p) = length [2, 2 :: size_t]
          \<and> \<not> cell_id_invalid [2, 2] (fst p)) ?items" by code_simp
  then have h3: "\<forall>p\<in>set ?items. length (fst p) = length [2, 2 :: size_t]
          \<and> \<not> cell_id_invalid [2, 2] (fst p)" by (simp only: list_all_iff)
  have h4: "length ?items < 2 ^ 64" by simp
  have h5: "length [0, 0 :: size_t] = length [2, 2 :: size_t]" by simp
  have h6: "\<not> cell_id_invalid [2, 2] [0, 0]" by code_simp
  show ?thesis
    unfolding Let_def
    by (intro conjI)
       (fact h1, fact h2, fact h3, fact h4, fact h5, fact h6,
        rule enumerateData_after_compress [OF h1 h2 h3 h4 h5 h6])
qed

text \<open>
  The grid size \<open>(2\<^sup>3\<^sup>2 + 1, 2\<^sup>3\<^sup>2 + 1)\<close> has a product above \<open>2\<^sup>6\<^sup>4\<close>. The in-range cell
  ids \<open>(0, 0)\<close> and \<open>(1, 2\<^sup>3\<^sup>2 - 1)\<close> both linearize to 0, since
  \<open>1 + (2\<^sup>3\<^sup>2 - 1) \<cdot> (2\<^sup>3\<^sup>2 + 1) = 2\<^sup>6\<^sup>4\<close>. Every access of \<open>compress\<close> is in bounds, and
  the view of the cell \<open>(0, 0)\<close> holds the item 20 of the other cell besides its own item 10.
\<close>

theorem enumerateData_after_compress_counterexample:
  "prod_list (map unat [4294967297, 4294967297 :: size_t]) = 2 ^ 64 + 2 ^ 33 + 1
   \<and> (let s0 = \<lparr>grid_size_m = [4294967297, 4294967297], num_cells_m = 1, compressed_m = False,
              raw_data = [], raw_cell_ids = [], data = [],
              num_data_per_cell = [0], first_data_id_per_cell = [0],
              next_data_id_per_cell_buff = [0]\<rparr> :: nat MultiGrid;
        items = [([0, 0], 10), ([1, 4294967295], 20)];
        s = \<lparr>grid_size_m = [4294967297, 4294967297], num_cells_m = 1, compressed_m = True,
              raw_data = [10, 20], raw_cell_ids = [[0, 0], [1, 4294967295]], data = [10, 20],
              num_data_per_cell = [2], first_data_id_per_cell = [0],
              next_data_id_per_cell_buff = [2]\<rparr>
    in MultiGrid [4294967297, 4294967297] 0 = Inr s0
       \<and> list_all (\<lambda>p. length (fst p) = 2 \<and> \<not> cell_id_invalid [4294967297, 4294967297] (fst p)) items
       \<and> run 0 s0 (map (\<lambda>p. Add (fst p) (snd p)) items @ [Compress]) = Inr s
       \<and> enumerateData s [0, 0] = Inr \<lparr>begin_it = 0, end_it = 2\<rparr>
       \<and> view s \<lparr>begin_it = 0, end_it = 2\<rparr> = [10, 20]
       \<and> map snd (filter (\<lambda>p. fst p = [0, 0]) items) = [10]
       \<and> mset [10, 20 :: nat] \<noteq> mset [10])"
proof (intro conjI)
  show "prod_list (map unat [4294967297, 4294967297 :: size_t]) = 2 ^ 64 + 2 ^ 33 + 1"
    by simp
qed code_simp+

text \<open>
  Claim C8, for an object whose stored cell count is the product of its grid size. After
  any sequence of calls, \<open>compress\<close> returns, and the view of every in-range cell id is
  then the list of the raw items with this cell id in the order of the raw buffer, which
  is the order of their insertion.
\<close>

theorem compress_stable:
  assumes "MultiGrid grid_size buff_size = Inr s0"
    and "unat (num_cells_m s0) = prod_list (map unat grid_size)"
    and "\<forall>c x. Add c x \<in> set calls \<longrightarrow> length c = length grid_size"
    and "length calls < 2 ^ 64"
    and "length cell_id = length grid_size" "\<not> cell_id_invalid grid_size cell_id"
  shows "\<exists>s1 s b. run dflt s0 calls = Inr s1 \<and> compress dflt s1 = Inr s
          \<and> enumerateData s cell_id = Inr b
          \<and> view s b
              = map snd (filter (\<lambda>p. fst p = cell_id) (zip (raw_cell_ids s1) (raw_data s1)))"
proof -
  from run_compress_from_MultiGrid [OF assms(1-4), of dflt] obtain s1 s
    where s: "run dflt s0 calls = Inr s1" "run dflt s0 (calls @ [Compress]) = Inr s"
      "state_ok s" "compressed_m s" "grid_size_m s = grid_size"
      "raw_data s = raw_data s1" "raw_cell_ids s = raw_cell_ids s1" by blast
  have c: "compress dflt s1 = Inr s"
    using s(2) by (cases "compress dflt s1") (simp_all add: run_append s(1))
  let ?sid = "unat (linearize grid_size cell_id)"
  let ?b = "\<lparr>begin_it = unat (first_data_id_per_cell s ! ?sid),
             end_it = unat (first_data_id_per_cell s ! ?sid) + unat (num_data_per_cell s ! ?sid)\<rparr>"
  have cid: "length cell_id = length (grid_size_m s)" "\<not> cell_id_invalid (grid_size_m s) cell_id"
    using assms(5,6) s(5) by simp_all
  have cells: "\<forall>c\<in>set (raw_cell_ids s). length c = length grid_size \<and> \<not> cell_id_invalid grid_size c"
    using s(3) by (simp add: state_ok_def list_all_iff s(5))
  have e: "enumerateData s cell_id = Inr ?b"
    using enumerateData_compressed(1) [OF s(3,4) cid] by (simp add: s(5))
  have "view s ?b = spec_items grid_size (raw_cell_ids s) (raw_data s) ?sid"
    using enumerateData_compressed(2) [OF s(3,4) cid] by (simp add: s(5))
  also have "\<dots> = map snd (filter (\<lambda>p. fst p = cell_id) (zip (raw_cell_ids s) (raw_data s)))"
    using state_ok_fits [OF s(3)] cells assms(5,6) by (intro spec_items_by_cell) (simp_all add: s(5))
  finally have "view s ?b
      = map snd (filter (\<lambda>p. fst p = cell_id) (zip (raw_cell_ids s1) (raw_data s1)))"
    by (simp add: s(6,7))
  with s(1) c e show ?thesis by (intro exI [of _ s1] exI [of _ s] exI [of _ ?b]) simp
qed

theorem compress_stable_witness:
  "(let s0 = \<lparr>grid_size_m = [2, 2], num_cells_m = 4, compressed_m = False,
              raw_data = [], raw_cell_ids = [], data = [],
              num_data_per_cell = [0, 0, 0, 0], first_data_id_per_cell = [0, 0, 0, 0],
              next_data_id_per_cell_buff = [0, 0, 0, 0]\<rparr> :: nat MultiGrid;
        calls = [Add [0, 0] 10, Compress, Add [1, 0] 20, Add [2, 0] 99, Add [0, 0] 11, Add [1, 1] 30]
    in MultiGrid [2, 2] 0 = Inr s0
       \<and> unat (num_cells_m s0) = prod_list (map unat [2, 2 :: size_t])
       \<and> (\<forall>c x. Add c x \<in> set calls \<longrightarrow> length c = length [2, 2 :: size_t])
       \<and> length calls < 2 ^ 64
       \<and> length [0, 0 :: size_t] = length [2, 2 :: size_t]
       \<and> \<not> cell_id_invalid [2, 2] [0, 0]
       \<and> (\<exists>s1 s b. run 0 s0 calls = Inr s1 \<and> compress 0 s1 = Inr s
            \<and> enumerateData s [0, 0] = Inr b
            \<and> view s b
                = map snd (filter (\<lambda>p. fst p = [0, 0]) (zip (raw_cell_ids s1) (raw_data s1)))))"
proof -
  let ?s0 = "\<lparr>grid_size_m = [2, 2], num_cells_m = 4, compressed_m = False,
              raw_data = [], raw_cell_ids = [], data = [],
              num_data_per_cell = [0, 0, 0, 0], first_data_id_per_cell = [0, 0, 0, 0],
              next_data_id_per_cell_buff = [0, 0, 0, 0]\<rparr> :: nat MultiGrid"
  let ?calls = "[Add [0, 0] 10, Compress, Add [1, 0] 20, Add [2, 0] 99, Add [0, 0] 11, Add [1, 1] 30]
                  :: nat operation list"
  have h1: "MultiGrid [2, 2] 0 = Inr ?s0" by code_simp
  have h2: "unat (num_cells_m ?s0) = prod_list (map unat [2, 2 :: size_t])" by simp
  have h3: "\<forall>c x. Add c x \<in> set ?calls \<longrightarrow> length c = length [2, 2 :: size_t]" by auto
  have h4: "length ?calls < 2 ^ 64" by simp
  have h5: "length [0, 0 :: size_t] = length [2, 2 :: size_t]" by simp
  have h6: "\<not> cell_id_invalid [2, 2] [0, 0]" by code_simp
  show ?thesis
    unfolding Let_def
    by (intro conjI)
       (fact h1, fact h2, fact h3, fact h4, fact h5, fact h6,
        rule compress_stable [OF h1 h2 h3 h4 h5 h6])
qed

text \<open>
  Two overflowing grid sizes. On \<open>(2\<^sup>3\<^sup>2, 2\<^sup>3\<^sup>2)\<close> the product is \<open>2\<^sup>6\<^sup>4\<close>, the per-cell
  arrays are empty, and \<open>compress\<close> after two accepted \<open>add\<close> calls increments
  \<open>num_data_per_cell[0]\<close> of an empty vector: no order of the two items results. On
  \<open>(2\<^sup>3\<^sup>2 + 1, 2\<^sup>3\<^sup>2 + 1)\<close> every access is in bounds, and the segment of the cell
  \<open>(0, 0)\<close> is \<open>20, 10, 30\<close>, while the only item inserted with this cell id is 10.
\<close>

theorem compress_stable_counterexample:
  "prod_list (map unat [4294967296, 4294967296 :: size_t]) = 2 ^ 64
   \<and> (let s0 = \<lparr>grid_size_m = [4294967296, 4294967296], num_cells_m = 0, compressed_m = False,
              raw_data = [], raw_cell_ids = [], data = [],
              num_data_per_cell = [], first_data_id_per_cell = [],
              next_data_id_per_cell_buff = []\<rparr> :: nat MultiGrid;
        s1 = s0\<lparr>raw_data := [1, 2], raw_cell_ids := [[0, 0], [0, 0]]\<rparr>
    in MultiGrid [4294967296, 4294967296] 0 = Inr s0
       \<and> \<not> cell_id_invalid [4294967296, 4294967296] [0, 0]
       \<and> run 0 s0 [Add [0, 0] 1, Add [0, 0] 2] = Inr s1
       \<and> compress 0 s1 = Inl OutOfBounds)
   \<and> (let s0 = \<lparr>grid_size_m = [4294967297, 4294967297], num_cells_m = 1, compressed_m = False,
              raw_data = [], raw_cell_ids = [], data = [],
              num_data_per_cell = [0], first_data_id_per_cell = [0],
              next_data_id_per_cell_buff = [0]\<rparr> :: nat MultiGrid;
        s1 = s0\<lparr>raw_data := [20, 10, 30],
                  raw_cell_ids := [[1, 4294967295], [0, 0], [1, 4294967295]]\<rparr>;
        s = s1\<lparr>compressed_m := True, data := [20, 10, 30], num_data_per_cell := [3],
                 first_data_id_per_cell := [0], next_data_id_per_cell_buff := [3]\<rparr>
    in MultiGrid [4294967297, 4294967297] 0 = Inr s0
       \<and> run 0 s0 [Add [1, 4294967295] 20, Add [0, 0] 10, Add [1, 4294967295] 30] = Inr s1
       \<and> compress 0 s1 = Inr s
       \<and> enumerateData s [0, 0] = Inr \<lparr>begin_it = 0, end_it = 3\<rparr>
       \<and> view s \<lparr>begin_it = 0, end_it = 3\<rparr> = [20, 10, 30]
       \<and> map snd (filter (\<lambda>p. fst p = [0, 0]) (zip (raw_cell_ids s1) (raw_data s1))) = [10])"
proof (intro conjI)
  show "prod_list (map unat [4294967296, 4294967296 :: size_t]) = 2 ^ 64"
    by simp
qed code_simp+

section \<open>Idempotence of compress\<close>

text \<open>
  Claim C4. In every state, \<open>compress\<close> called while the compressed flag is set returns
  the very same state, and a second \<open>compress\<close> right after a first one returns the state
  the first one produced: the raw buffer, the compressed buffer, the flag, and with them
  every result of \<open>enumerateData\<close>, are those after one call.
\<close>

theorem compress_idempotent:
  "(compressed_m s \<longrightarrow> compress dflt s = Inr s)
   \<and> (\<forall>s'. compress dflt s = Inr s' \<longrightarrow> compress dflt s' = Inr s')"
proof (intro conjI allI impI)
  show "compress dflt s = Inr s" if "compressed_m s"
    using that by (simp add: compress_def)
  show "compress dflt s' = Inr s'" if "compress dflt s = Inr s'" for s'
    using compress_Inr_compressed [OF that] by (simp add: compress_def)
qed

theorem compress_idempotent_witness:
  "(let s = snd (add [0, 0] 11 (snd (add [1, 0] 20 (snd (add [0, 0] 10
              (projr (MultiGrid [2, 2] 0 :: error + nat MultiGrid)))))));
        s' = \<lparr>grid_size_m = [2, 2], num_cells_m = 4, compressed_m = True,
               raw_data = [10, 20, 11], raw_cell_ids = [[0, 0], [1, 0], [0, 0]],
               data = [10, 11, 20], num_data_per_cell = [2, 1, 0, 0],
               first_data_id_per_cell = [0, 2, 3, 3],
               next_data_id_per_cell_buff = [2, 3, 3, 3]\<rparr>
    in compress 0 s = Inr s' \<and> compress 0 s' = Inr s' \<and> compressed_m s')"
proof -
  let ?s = "snd (add [0, 0] 11 (snd (add [1, 0] 20 (snd (add [0, 0] 10
              (projr (MultiGrid [2, 2] 0 :: error + nat MultiGrid)))))))"
  let ?s' = "\<lparr>grid_size_m = [2, 2], num_cells_m = 4, compressed_m = True,
               raw_data = [10, 20, 11 :: nat], raw_cell_ids = [[0, 0], [1, 0], [0, 0]],
               data = [10, 11, 20], num_data_per_cell = [2, 1, 0, 0],
               first_data_id_per_cell = [0, 2, 3, 3],
               next_data_id_per_cell_buff = [2, 3, 3, 3]\<rparr>"
  have once: "compress 0 ?s = Inr ?s'" by code_simp
  have flag: "compressed_m ?s'" by simp
  from compress_idempotent [of ?s 0] once have twice: "compress 0 ?s' = Inr ?s'" by blast
  show ?thesis unfolding Let_def by (intro conjI) (fact once, fact twice, fact flag)
qed

section \<open>Querying\<close>

text \<open>
  Claim C6, for an object whose stored cell count is the product of its grid size. After
  any sequence of calls, \<open>enumerateData\<close> throws \<open>NotCompressed\<close> exactly when the
  compressed flag is false; the flag is true exactly when the sequence has a \<open>compress\<close>
  that no \<open>clear\<close> and no accepted \<open>add\<close> follows; and with the flag true and an in-range
  cell id of storage id \<open>s\<close>, \<open>enumerateData\<close> returns the bounds
  \<open>first_data_id_per_cell[s]\<close> and \<open>first_data_id_per_cell[s] + num_data_per_cell[s]\<close>.
\<close>

theorem enumerateData_NotCompressed_iff:
  assumes "MultiGrid grid_size buff_size = Inr s0"
    and "unat (num_cells_m s0) = prod_list (map unat grid_size)"
    and "\<forall>c x. Add c x \<in> set calls \<longrightarrow> length c = length grid_size"
    and "length calls < 2 ^ 64"
    and "length cell_id = length grid_size"
  shows "\<exists>s. run dflt s0 calls = Inr s
          \<and> (enumerateData s cell_id = Inl NotCompressed \<longleftrightarrow> \<not> compressed_m s)
          \<and> (compressed_m s \<longleftrightarrow>
                (\<exists>pre post. calls = pre @ Compress # post
                    \<and> \<not> list_ex (mutating grid_size) post))
          \<and> (compressed_m s \<and> \<not> cell_id_invalid grid_size cell_id \<longrightarrow>
                enumerateData s cell_id
                  = Inr \<lparr>begin_it = unat (first_data_id_per_cell s ! unat (linearize grid_size cell_id)),
                         end_it = unat (first_data_id_per_cell s ! unat (linearize grid_size cell_id))
                                + unat (num_data_per_cell s ! unat (linearize grid_size cell_id))\<rparr>)"
proof -
  note f = MultiGrid_fields [OF assms(1)]
  from run_from_MultiGrid [OF assms(1-4), of dflt] obtain s
    where s: "run dflt s0 calls = Inr s" "state_ok s" "grid_size_m s = grid_size" by blast
  have 1: "enumerateData s cell_id = Inl NotCompressed \<longleftrightarrow> \<not> compressed_m s"
    by (simp add: enumerateData_def Let_def)
  have 2: "compressed_m s \<longleftrightarrow>
       (\<exists>pre post. calls = pre @ Compress # post \<and> \<not> list_ex (mutating grid_size) post)"
    using flag_after_run [OF s(1)] by (simp add: f)
  have 3: "enumerateData s cell_id
        = Inr \<lparr>begin_it = unat (first_data_id_per_cell s ! unat (linearize grid_size cell_id)),
               end_it = unat (first_data_id_per_cell s ! unat (linearize grid_size cell_id))
                      + unat (num_data_per_cell s ! unat (linearize grid_size cell_id))\<rparr>"
    if "compressed_m s" "\<not> cell_id_invalid grid_size cell_id"
    using enumerateData_compressed(1) [OF s(2) that(1), of cell_id] that(2) assms(5)
    by (simp add: s(3))
  from s(1) 1 2 3 show ?thesis by blast
qed

theorem enumerateData_NotCompressed_iff_witness:
  "(let s0 = \<lparr>grid_size_m = [1, 1], num_cells_m = 1, compressed_m = False,
              raw_data = [], raw_cell_ids = [], data = [],
              num_data_per_cell = [0], first_data_id_per_cell = [0],
              next_data_id_per_cell_buff = [0]\<rparr> :: nat MultiGrid;
        calls = [Add [0, 0] 7, Compress, Add [0, 0] 8]
    in MultiGrid [1, 1] 0 = Inr s0
       \<and> unat (num_cells_m s0) = prod_list (map unat [1, 1 :: size_t])
       \<and> (\<forall>c x. Add c x \<in> set calls \<longrightarrow> length c = length [1, 1 :: size_t])
       \<and> length calls < 2 ^ 64
       \<and> length [0, 0 :: size_t] = length [1, 1 :: size_t]
       \<and> (\<exists>s. run 0 s0 calls = Inr s
          \<and> (enumerateData s [0, 0] = Inl NotCompressed \<longleftrightarrow> \<not> compressed_m s)
          \<and> (compressed_m s \<longleftrightarrow>
                (\<exists>pre post. calls = pre @ Compress # post
                    \<and> \<not> list_ex (mutating [1, 1]) post))
          \<and> (compressed_m s \<and> \<not> cell_id_invalid [1, 1] [0, 0] \<longrightarrow>
                enumerateData s [0, 0]
                  = Inr \<lparr>begin_it = unat (first_data_id_per_cell s ! unat (linearize [1, 1] [0, 0])),
                         end_it = unat (first_data_id_per_cell s ! unat (linearize [1, 1] [0, 0]))
                                + unat (num_data_per_cell s ! unat (linearize [1, 1] [0, 0]))\<rparr>))
       \<and> enumerateData (projr (run 0 s0 calls)) [0, 0] = Inl NotCompressed
       \<and> enumerateData (projr (run 0 s0 (calls @ [Compress]))) [0, 0]
            = Inr \<lparr>begin_it = 0, end_it = 2\<rparr>)"
proof -
  let ?s0 = "\<lparr>grid_size_m = [1, 1], num_cells_m = 1, compressed_m = False,
              raw_data = [], raw_cell_ids = [], data = [],
              num_data_per_cell = [0], first_data_id_per_cell = [0],
              next_data_id_per_cell_buff = [0]\<rparr> :: nat MultiGrid"
  let ?calls = "[Add [0, 0] 7, Compress, Add [0, 0] 8] :: nat operation list"
  have h1: "MultiGrid [1, 1] 0 = Inr ?s0" by code_simp
  have h2: "unat (num_cells_m ?s0) = prod_list (map unat [1, 1 :: size_t])" by simp
  have h3: "\<forall>c x. Add c x \<in> set ?calls \<longrightarrow> length c = length [1, 1 :: size_t]" by auto
  have h4: "length ?calls < 2 ^ 64" by simp
  have h5: "length [0, 0 :: size_t] = length [1, 1 :: size_t]" by simp
  have e1: "enumerateData (projr (run 0 ?s0 ?calls)) [0, 0] = Inl NotCompressed" by code_simp
  have e2: "enumerateData (projr (run 0 ?s0 (?calls @ [Compress]))) [0, 0]
            = Inr \<lparr>begin_it = 0, end_it = 2\<rparr>" by code_simp
  show ?thesis
    unfolding Let_def
    by (intro conjI)
       (fact h1, fact h2, fact h3, fact h4, fact h5,
        rule enumerateData_NotCompressed_iff [OF h1 h2 h3 h4 h5], fact e1, fact e2)
qed

text \<open>
  On the grid size \<open>(2\<^sup>6\<^sup>3, 2)\<close>, whose per-cell arrays are empty: \<open>compress\<close> of the empty
  raw buffer sets the flag, and \<open>enumerateData\<close> of the in-range cell id \<open>(0, 0)\<close> then
  reads \<open>first_data_id_per_cell[0]\<close> of an empty vector instead of returning bounds.
\<close>

theorem enumerateData_NotCompressed_iff_counterexample:
  "prod_list (map unat [9223372036854775808, 2 :: size_t]) = 2 ^ 64
   \<and> (let s0 = \<lparr>grid_size_m = [9223372036854775808, 2], num_cells_m = 0, compressed_m = False,
              raw_data = [], raw_cell_ids = [], data = [],
              num_data_per_cell = [], first_data_id_per_cell = [],
              next_data_id_per_cell_buff = []\<rparr> :: nat MultiGrid
    in MultiGrid [9223372036854775808, 2] 0 = Inr s0
       \<and> run 0 s0 [Compress] = Inr (s0\<lparr>compressed_m := True\<rparr>)
       \<and> \<not> cell_id_invalid [9223372036854775808, 2] [0, 0]
       \<and> enumerateData (s0\<lparr>compressed_m := True\<rparr>) [0, 0] = Inl OutOfBounds)"
proof (intro conjI)
  show "prod_list (map unat [9223372036854775808, 2 :: size_t]) = 2 ^ 64"
    by simp
qed code_simp+

text \<open>
  Claim C10. While the compressed flag is false, \<open>enumerateData\<close> called with a cell id
  that is out of range as well throws \<open>NotCompressed\<close>, not \<open>OutOfRange\<close>: the flag is
  tested first.
\<close>

theorem enumerateData_NotCompressed_first:
  assumes "\<not> compressed_m s"
    and "\<exists>i<length (grid_size_m s). grid_size_m s ! i \<le> cell_id ! i"
  shows "enumerateData s cell_id = Inl NotCompressed \<and> enumerateData s cell_id \<noteq> Inl OutOfRange"
  using assms by (simp add: enumerateData_def)

theorem enumerateData_NotCompressed_first_witness:
  "(let s = projr (MultiGrid [2, 2] 0 :: error + nat MultiGrid) in
     \<not> compressed_m s \<and> (\<exists>i<length (grid_size_m s). grid_size_m s ! i \<le> [2, 0] ! i)
     \<and> enumerateData s [2, 0] = Inl NotCompressed)"
proof -
  let ?s = "projr (MultiGrid [2, 2] 0 :: error + nat MultiGrid)"
  have a: "\<not> compressed_m ?s" by (simp add: MultiGrid_def Let_def)
  have b: "\<exists>i<length (grid_size_m ?s). grid_size_m ?s ! i \<le> [2, 0] ! i"
    by (rule exI [of _ 0]) (simp add: MultiGrid_def Let_def)
  have c: "enumerateData ?s [2, 0] = Inl NotCompressed"
    using enumerateData_NotCompressed_first [OF a b] by (rule conjunct1)
  show ?thesis unfolding Let_def by (intro conjI) (fact a, fact b, fact c)
qed

end
